theory Spec2Isabelle
  imports Main "HOL-Library.Word"
begin

unbundle bit_operations_syntax

section \<open>Addresses and their text forms (network.c)\<close>

text \<open>
  A C string is modelled by the list of its characters before the terminating NUL.

  The declarations of \<open>HostAddress\<close>, \<open>SocketAddress\<close> and \<open>Status\<close> are in a header
  that is not among the sources; the code reads and writes the fields \<open>type\<close> and \<open>ip\<close>
  of a host address and
  \<open>host\<close> and \<open>port\<close> of a socket address. The buffer \<open>ip\<close> holds the 16 bytes of an IPv6
  address or, in its first 4 bytes, an IPv4 address, in network byte order; \<open>port\<close> is a
  16-bit value in network byte order.
\<close>

datatype NetworkType = NETWORK_INET | NETWORK_INET6

datatype Status = STATUS_SUCCESS | STATUS_FAILURE

record HostAddress =
  type :: NetworkType
  ip :: "8 word list"

record SocketAddress =
  host :: HostAddress
  port :: "16 word"

text \<open>
  Modelled from the spec: the constant \<open>ADDRESS_MAX_LEN\<close>, the size of the buffers that
  receive a printed address, which the spec describes as large enough for the longest
  bracketed IPv6 form followed by \<open>:65535\<close>; that is 47 characters and the NUL.
\<close>

definition ADDRESS_MAX_LEN :: nat where
  "ADDRESS_MAX_LEN = 48"

subsection \<open>Library functions\<close>

text \<open>\<open>isspace\<close> in the C locale.\<close>

definition isspace :: "char \<Rightarrow> bool" where
  "isspace c = (of_char c = (32 :: nat) \<or> (9 \<le> (of_char c :: nat) \<and> (of_char c :: nat) \<le> 13))"

text \<open>
  \<open>htons\<close> and \<open>ntohs\<close> on a little-endian host exchange the two bytes of their
  argument. \<open>pun16\<close> is the read of the \<open>i\<close>-th \<open>uint16_t\<close> of a byte buffer on such a
  host: the byte at the lower address is the less significant one.
\<close>

definition htons :: "16 word \<Rightarrow> 16 word" where
  "htons x = push_bit 8 x OR drop_bit 8 x"

definition ntohs :: "16 word \<Rightarrow> 16 word" where
  "ntohs x = push_bit 8 x OR drop_bit 8 x"

definition pun16 :: "8 word list \<Rightarrow> nat \<Rightarrow> 16 word" where
  "pun16 bytes i = word_cat (bytes ! (2 * i + 1)) (bytes ! (2 * i))"

text \<open>The conversion \<open>%u\<close> of \<open>printf\<close>: decimal digits, no leading zero.\<close>

definition digit_char :: "nat \<Rightarrow> char" where
  "digit_char d = ''0123456789'' ! d"

fun print_u :: "nat \<Rightarrow> string" where
  "print_u n = (if n < 10 then [digit_char n] else print_u (n div 10) @ [digit_char (n mod 10)])"

declare print_u.simps [simp del]

text \<open>
  \<open>snprintf\<close> with the size \<open>n\<close> stores at most \<open>n - 1\<close> characters of the formatted text (and then the
  NUL).
\<close>

definition snprintf :: "nat \<Rightarrow> string \<Rightarrow> string" where
  "snprintf n formatted = take (n - 1) formatted"

text \<open>
  \<open>inet_pton\<close> for \<open>AF_INET\<close>, as the GNU C library implements it (\<open>inet_pton4\<close>): four
  decimal numbers of at most 255, without superfluous leading zeros, separated by dots.
  \<open>prev\<close> are the octets finished so far, \<open>cur\<close> is the octet under the pointer \<open>tp\<close>.
\<close>

definition dec_digit_value :: "char \<Rightarrow> nat option" where
  "dec_digit_value ch =
     (if 48 \<le> (of_char ch :: nat) \<and> (of_char ch :: nat) \<le> 57 then Some (of_char ch - 48) else None)"

fun pton4_loop :: "string \<Rightarrow> bool \<Rightarrow> nat \<Rightarrow> 8 word list \<Rightarrow> nat \<Rightarrow> 8 word list option" where
  "pton4_loop [] saw_digit octets prev cur =
     (if octets < 4 then None else Some (prev @ [of_nat cur]))"
| "pton4_loop (ch # src) saw_digit octets prev cur =
     (case dec_digit_value ch of
        Some d \<Rightarrow>
          if saw_digit \<and> cur = 0 then None
          else if cur * 10 + d > 255 then None
          else if \<not> saw_digit then
            (if octets + 1 > 4 then None else pton4_loop src True (octets + 1) prev (cur * 10 + d))
          else pton4_loop src saw_digit octets prev (cur * 10 + d)
      | None \<Rightarrow>
          if ch = CHR ''.'' \<and> saw_digit then
            (if octets = 4 then None else pton4_loop src False octets (prev @ [of_nat cur]) 0)
          else None)"

definition inet_pton4 :: "string \<Rightarrow> 8 word list option" where
  "inet_pton4 src = pton4_loop src False 0 [] 0"

text \<open>
  \<open>inet_pton\<close> for \<open>AF_INET6\<close>, as the GNU C library implements it (\<open>inet_pton6\<close>):
  groups of one to four hexadecimal digits separated by colons, at most one \<open>::\<close> that
  stands for at least one group of zeros, and possibly a dotted IPv4 address as the last
  32 bits. \<open>tp\<close> are the bytes stored so far, \<open>colonp\<close> the position where \<open>::\<close> was seen,
  \<open>curtok\<close> the text from the start of the current group.
\<close>

definition hex_digit_value :: "char \<Rightarrow> nat option" where
  "hex_digit_value ch =
     (let c = (of_char ch :: nat) in
      if 48 \<le> c \<and> c \<le> 57 then Some (c - 48)
      else if 97 \<le> c \<and> c \<le> 102 then Some (c - 97 + 10)
      else if 65 \<le> c \<and> c \<le> 70 then Some (c - 65 + 10)
      else None)"

definition store16 :: "8 word list \<Rightarrow> nat \<Rightarrow> 8 word list" where
  "store16 tp val = tp @ [of_nat (val div 256 mod 256), of_nat (val mod 256)]"

definition pton6_finish ::
  "8 word list \<Rightarrow> nat option \<Rightarrow> nat \<Rightarrow> nat \<Rightarrow> 8 word list option" where
  "pton6_finish tp colonp xdigits_seen val =
     (if xdigits_seen > 0 \<and> length tp + 2 > 16 then None
      else
        (let tp = (if xdigits_seen > 0 then store16 tp val else tp) in
         case colonp of
           Some c \<Rightarrow>
             if length tp = 16 then None
             else Some (take c tp @ replicate (16 - length tp) 0 @ drop c tp)
         | None \<Rightarrow> if length tp \<noteq> 16 then None else Some tp))"

fun pton6_loop ::
  "string \<Rightarrow> string \<Rightarrow> 8 word list \<Rightarrow> nat option \<Rightarrow> nat \<Rightarrow> nat \<Rightarrow> 8 word list option" where
  "pton6_loop curtok [] tp colonp xdigits_seen val = pton6_finish tp colonp xdigits_seen val"
| "pton6_loop curtok (ch # src) tp colonp xdigits_seen val =
     (case hex_digit_value ch of
        Some digit \<Rightarrow>
          if xdigits_seen = 4 then None
          else if val * 16 + digit > 65535 then None
          else pton6_loop curtok src tp colonp (xdigits_seen + 1) (val * 16 + digit)
      | None \<Rightarrow>
          if ch = CHR '':'' then
            (if xdigits_seen = 0 then
               (if colonp \<noteq> None then None
                else pton6_loop src src tp (Some (length tp)) xdigits_seen val)
             else if src = [] then None
             else if length tp + 2 > 16 then None
             else pton6_loop src src (store16 tp val) colonp 0 0)
          else if ch = CHR ''.'' \<and> length tp + 4 \<le> 16 then
            (case inet_pton4 curtok of
               Some quad \<Rightarrow> pton6_finish (tp @ quad) colonp 0 val
             | None \<Rightarrow> None)
          else None)"

definition inet_pton6 :: "string \<Rightarrow> 8 word list option" where
  "inet_pton6 src =
     (case src of
        [] \<Rightarrow> None
      | ch # rest \<Rightarrow>
          if ch = CHR '':'' then
            (case rest of
               [] \<Rightarrow> None
             | ch' # _ \<Rightarrow> if ch' \<noteq> CHR '':'' then None else pton6_loop rest rest [] None 0 0)
          else pton6_loop src src [] None 0 0)"

subsection \<open>Helpers of the utilities\<close>

text \<open>
  Modelled from the spec: \<open>split_string\<close>, of the utilities, whose code is not among the
  sources. The spec has the socket address split on the last occurrence of the delimiter
  that lies outside brackets: the text before it is returned, the text after it is the
  right-hand side, and there is no result when the delimiter does not occur outside
  brackets. \<open>in_brackets\<close> tells whether the end of a text lies after a \<open>[\<close> that no \<open>]\<close>
  has closed; \<open>split_from\<close> is the split of a text that starts in the given state.
\<close>

definition bracket_step :: "bool \<Rightarrow> char \<Rightarrow> bool" where
  "bracket_step inside c =
     (if c = CHR ''['' then True else if c = CHR '']'' then False else inside)"

definition in_brackets :: "string \<Rightarrow> bool" where
  "in_brackets str = foldl bracket_step False str"

fun split_from :: "bool \<Rightarrow> string \<Rightarrow> char \<Rightarrow> (string \<times> string) option" where
  "split_from inside [] delim = None"
| "split_from inside (c # cs) delim =
     (case split_from (bracket_step inside c) cs delim of
        Some (lhs, rhs) \<Rightarrow> Some (c # lhs, rhs)
      | None \<Rightarrow> if c = delim \<and> \<not> inside then Some ([], cs) else None)"

definition split_string :: "string \<Rightarrow> char \<Rightarrow> (string \<times> string) option" where
  "split_string str delim = split_from False str delim"

text \<open>
  Modelled from the spec: \<open>parse_long\<close>, of the utilities, whose code is not among the
  sources. The spec has the port parsed as a decimal number from 1 to 65535: a string
  of decimal digits, not empty, whose value lies in that range gives this value, and
  anything else is a failure.
\<close>

fun decimal_value :: "nat \<Rightarrow> string \<Rightarrow> nat option" where
  "decimal_value acc [] = Some acc"
| "decimal_value acc (ch # cs) =
     (case dec_digit_value ch of
        Some d \<Rightarrow> decimal_value (acc * 10 + d) cs
      | None \<Rightarrow> None)"

definition parse_long :: "string \<Rightarrow> int option" where
  "parse_long str =
     (if str = [] then None
      else
        (case decimal_value 0 str of
           None \<Rightarrow> None
         | Some v \<Rightarrow> if 1 \<le> v \<and> v \<le> 65535 then Some (int v) else None))"

subsection \<open>Host addresses\<close>

text \<open>
  \<open>host_address_from_str\<close>. The second argument is what \<open>addr_out\<close> points to before
  the call; the result is the status together with what it points to after the call.
  The local \<open>addr\<close> starts as zeroed storage; its field \<open>type\<close> is assigned before it is
  copied out.
\<close>

definition zeroed_ip :: "8 word list" where
  "zeroed_ip = [0, 0, 0, 0, 0, 0, 0, 0, 0, 0, 0, 0, 0, 0, 0, 0]"

definition host_address_from_str :: "string \<Rightarrow> HostAddress \<Rightarrow> Status \<times> HostAddress" where
  "host_address_from_str str addr_out =
     (let str = dropWhile isspace str in
      if str \<noteq> [] \<and> hd str = CHR ''['' then
        (case split_string (tl str) CHR '']'' of
           None \<Rightarrow> (STATUS_FAILURE, addr_out)
         | Some (ip6_str, rhs) \<Rightarrow>
             (case inet_pton6 ip6_str of
                None \<Rightarrow> (STATUS_FAILURE, addr_out)
              | Some bytes \<Rightarrow>
                  (STATUS_SUCCESS, \<lparr>type = NETWORK_INET6, ip = bytes\<rparr>)))
      else
        (case inet_pton4 str of
           None \<Rightarrow> (STATUS_FAILURE, addr_out)
         | Some quad \<Rightarrow>
             (STATUS_SUCCESS,
              \<lparr>type = NETWORK_INET, ip = quad @ drop (length quad) zeroed_ip\<rparr>)))"

text \<open>
  \<open>host_address_to_str\<close>, IPv6 part. The first loop looks for the largest sequence of
  zero groups; its state is \<open>(pos, len, maxpos, maxlen)\<close>.
\<close>

definition find_zeroes_step :: "8 word list \<Rightarrow> int \<times> int \<times> int \<times> int \<Rightarrow> nat \<Rightarrow> int \<times> int \<times> int \<times> int" where
  "find_zeroes_step bytes st i =
     (case st of (pos, len, maxpos, maxlen) \<Rightarrow>
        if pun16 bytes i \<noteq> 0 then (- 1, 0, maxpos, maxlen)
        else
          (let (pos, len) = (if pos = - 1 then (int i, 1) else (pos, len + 1)) in
           if maxlen < len then (pos, len, pos, len) else (pos, len, maxpos, maxlen)))"

definition find_zeroes :: "8 word list \<Rightarrow> int \<times> int" where
  "find_zeroes bytes =
     (case foldl (find_zeroes_step bytes) (- 1, 0, - 1, 0) [0 ..< 8] of
        (pos, len, maxpos, maxlen) \<Rightarrow> (maxpos, maxlen))"

text \<open>
  Writing one 16-bit chunk: the loop over the four hexadecimal digits, from the most
  significant one; \<open>mode\<close> is set at the first digit that is not zero, or at the last
  digit.
\<close>

definition lut :: string where
  "lut = ''0123456789abcdef''"

fun write_digits :: "16 word \<Rightarrow> nat list \<Rightarrow> bool \<Rightarrow> string \<Rightarrow> string" where
  "write_digits part [] mode out = out"
| "write_digits part (j # js) mode out =
     (let digit = unat (drop_bit (j * 4) part AND 15);
          mode = (if digit \<noteq> 0 \<or> j = 0 then True else mode)
      in write_digits part js mode (if mode then out @ [lut ! digit] else out))"

definition write_chunk :: "16 word \<Rightarrow> string" where
  "write_chunk part = write_digits part [3, 2, 1, 0] False []"

text \<open>
  The second loop writes the address. It adds \<open>maxlen - 1\<close> to its own counter when it
  meets \<open>maxpos\<close>, so that it comes to an end is a property of the values the first loop
  hands over: the loop is a partial function, \<open>None\<close> standing for a run that does not
  end.
\<close>

partial_function (option) write_address ::
  "8 word list \<Rightarrow> int \<Rightarrow> int \<Rightarrow> int \<Rightarrow> bool \<Rightarrow> string \<Rightarrow> string option" where
  "write_address bytes maxpos maxlen i colon_flag out =
     (if i < 8 then
        (if i = maxpos then
           write_address bytes maxpos maxlen (i + (maxlen - 1) + 1) False (out @ ''::'')
         else
           write_address bytes maxpos maxlen (i + 1) True
             ((if colon_flag then out @ '':'' else out) @ write_chunk (ntohs (pun16 bytes (nat i)))))
      else Some out)"

declare write_address.simps [code]

definition host_address_to_str :: "HostAddress \<Rightarrow> string option" where
  "host_address_to_str a =
     (if type a = NETWORK_INET then
        Some (snprintf ADDRESS_MAX_LEN
               (print_u (unat (ip a ! 0)) @ ''.'' @ print_u (unat (ip a ! 1)) @ ''.'' @
                print_u (unat (ip a ! 2)) @ ''.'' @ print_u (unat (ip a ! 3))))
      else
        (case find_zeroes (ip a) of
           (maxpos, maxlen) \<Rightarrow>
             (case write_address (ip a) maxpos maxlen 0 False ''['' of
                None \<Rightarrow> None
              | Some out \<Rightarrow> Some (out @ '']''))))"

subsection \<open>Socket addresses\<close>

text \<open>\<open>socket_address_to_str\<close>: the host, then \<open>:\<close> and the port in decimal.\<close>

definition socket_address_to_str :: "SocketAddress \<Rightarrow> string option" where
  "socket_address_to_str a =
     (let buf = snprintf 10 ('':'' @ print_u (unat (ntohs (port a)))) in
      case host_address_to_str (host a) of
        None \<Rightarrow> None
      | Some out \<Rightarrow> Some (out @ buf))"

text \<open>
  \<open>socket_address_from_str\<close>, with \<open>addr_out\<close> as in \<open>host_address_from_str\<close>. The
  \<open>long\<close> that \<open>parse_long\<close> delivers is converted to the 16-bit argument of \<open>htons\<close>,
  which keeps its low 16 bits.
\<close>

definition zeroed_host :: HostAddress where
  "zeroed_host = \<lparr>type = NETWORK_INET, ip = zeroed_ip\<rparr>"

definition socket_address_from_str :: "string \<Rightarrow> SocketAddress \<Rightarrow> Status \<times> SocketAddress" where
  "socket_address_from_str str addr_out =
     (case split_string str CHR '':'' of
        None \<Rightarrow> (STATUS_FAILURE, addr_out)
      | Some (host_str, port_str) \<Rightarrow>
          if port_str \<noteq> [] then
            (case parse_long port_str of
               Some port_val \<Rightarrow>
                 (let addr = \<lparr>host = zeroed_host, port = htons (word_of_int port_val)\<rparr>;
                      (sub_res, h) = host_address_from_str host_str (host addr)
                  in if sub_res = STATUS_SUCCESS then (sub_res, addr\<lparr>host := h\<rparr>)
                     else (sub_res, addr_out))
             | None \<Rightarrow> (STATUS_FAILURE, addr_out))
          else (STATUS_FAILURE, addr_out))"

subsection \<open>The printed form of a host address, in the words of the spec\<close>

text \<open>
  The text that the spec prescribes, to be compared with what \<open>host_address_to_str\<close>
  writes. An IPv4 address is the dotted quad of its four octets in decimal. An IPv6
  address is, between brackets, its eight 16-bit groups in lowercase hexadecimal without
  leading zeros, separated by colons, where \<open>::\<close> replaces the longest run of zero groups
  (of length at least 1), and of several longest runs the earliest.

  \<open>hex_text\<close> is the hexadecimal numeral of a number; \<open>zero_run gs i\<close> is the length of
  the run of zero groups that starts at position \<open>i\<close>.
\<close>

fun hex_text :: "nat \<Rightarrow> string" where
  "hex_text n =
     (if n < 16 then [''0123456789abcdef'' ! n]
      else hex_text (n div 16) @ [''0123456789abcdef'' ! (n mod 16)])"

declare hex_text.simps [simp del]

fun join :: "string \<Rightarrow> string list \<Rightarrow> string" where
  "join sep [] = []"
| "join sep [x] = x"
| "join sep (x # y # ys) = x @ sep @ join sep (y # ys)"

definition groups16 :: "8 word list \<Rightarrow> nat list" where
  "groups16 bytes =
     map (\<lambda>i. unat (bytes ! (2 * i)) * 256 + unat (bytes ! (2 * i + 1))) [0 ..< 8]"

definition zero_run :: "nat list \<Rightarrow> nat \<Rightarrow> nat" where
  "zero_run gs i = length (takeWhile (\<lambda>g. g = 0) (drop i gs))"

definition longest_zero_run :: "nat list \<Rightarrow> (nat \<times> nat) option" where
  "longest_zero_run gs =
     (let longest = fold max (map (zero_run gs) [0 ..< length gs]) 0 in
      if longest = 0 then None
      else map_option (\<lambda>i. (i, longest))
             (find (\<lambda>i. zero_run gs i = longest) [0 ..< length gs]))"

definition ipv6_text :: "nat list \<Rightarrow> string" where
  "ipv6_text gs =
     ''['' @
     (case longest_zero_run gs of
        None \<Rightarrow> join '':'' (map hex_text gs)
      | Some (i, n) \<Rightarrow>
          join '':'' (map hex_text (take i gs)) @ ''::'' @
          join '':'' (map hex_text (drop (i + n) gs))) @
     '']''"

definition ipv4_text :: "nat list \<Rightarrow> string" where
  "ipv4_text octets = join ''.'' (map print_u octets)"

definition spec_host_text :: "HostAddress \<Rightarrow> string" where
  "spec_host_text a =
     (if type a = NETWORK_INET then ipv4_text (map unat (take 4 (ip a)))
      else ipv6_text (groups16 (ip a)))"

text \<open>
  The first loop of \<open>host_address_to_str\<close> looks at a group only to see whether it is
  zero. \<open>find_zeroes_flags\<close> is that loop on the list that tells, for each group, whether
  it is zero; it serves to go through all the cases.
\<close>

definition find_zeroes_flags_step :: "bool list \<Rightarrow> int \<times> int \<times> int \<times> int \<Rightarrow> nat \<Rightarrow> int \<times> int \<times> int \<times> int" where
  "find_zeroes_flags_step zs st i =
     (case st of (pos, len, maxpos, maxlen) \<Rightarrow>
        if \<not> zs ! i then (- 1, 0, maxpos, maxlen)
        else
          (let (pos, len) = (if pos = - 1 then (int i, 1) else (pos, len + 1)) in
           if maxlen < len then (pos, len, pos, len) else (pos, len, maxpos, maxlen)))"

definition find_zeroes_flags :: "bool list \<Rightarrow> int \<times> int" where
  "find_zeroes_flags zs =
     (case foldl (find_zeroes_flags_step zs) (- 1, 0, - 1, 0) [0 ..< 8] of
        (pos, len, maxpos, maxlen) \<Rightarrow> (maxpos, maxlen))"

definition zero_run_code :: "(nat \<times> nat) option \<Rightarrow> int \<times> int" where
  "zero_run_code r = (case r of None \<Rightarrow> (- 1, 0) | Some (i, n) \<Rightarrow> (int i, int n))"

definition flags_agree :: "bool list \<Rightarrow> bool" where
  "flags_agree zs =
     (find_zeroes_flags zs = zero_run_code (longest_zero_run (map (\<lambda>z. if z then 0 else 1) zs)))"

text \<open>The text of the \<open>i\<close>-th group of a buffer.\<close>

definition chunk :: "8 word list \<Rightarrow> nat \<Rightarrow> string" where
  "chunk bytes i = hex_text (unat (bytes ! (2 * i)) * 256 + unat (bytes ! (2 * i + 1)))"

text \<open>
  The value of the \<open>i\<close>-th group of a buffer, and the bytes of the groups from \<open>i\<close> up
  to \<open>j\<close>, \<open>j\<close> excluded.
\<close>

definition group_value :: "8 word list \<Rightarrow> nat \<Rightarrow> nat" where
  "group_value bytes i = unat (bytes ! (2 * i)) * 256 + unat (bytes ! (2 * i + 1))"

definition group_bytes :: "8 word list \<Rightarrow> nat \<Rightarrow> nat \<Rightarrow> 8 word list" where
  "group_bytes bytes i j = concat (map (\<lambda>k. [bytes ! (2 * k), bytes ! (2 * k + 1)]) [i ..< j])"

text \<open>
  Modelled from the spec: the invariant of a host address, that the tag and the populated
  variant agree. The buffer \<open>ip\<close> has its 16 bytes; an IPv4 address populates the first 4
  of them, and the others are as the zeroed storage of \<open>host_address_from_str\<close> has
  them.
\<close>

definition well_formed_host :: "HostAddress \<Rightarrow> bool" where
  "well_formed_host h =
     (length (ip h) = 16 \<and> (type h = NETWORK_INET \<longrightarrow> drop 4 (ip h) = drop 4 zeroed_ip))"

text \<open>Addresses to run the functions on.\<close>

definition example_host :: HostAddress where
  "example_host =
     \<lparr>type = NETWORK_INET, ip = [127, 0, 0, 1, 0, 0, 0, 0, 0, 0, 0, 0, 0, 0, 0, 0]\<rparr>"

definition example_host6 :: HostAddress where
  "example_host6 =
     \<lparr>type = NETWORK_INET6,
      ip = [0x20, 0x01, 0x0d, 0xb8, 0, 0, 0, 0, 0, 0, 0, 0x0a, 0, 0, 0, 1]\<rparr>"

definition example_socket :: SocketAddress where
  "example_socket = \<lparr>host = example_host, port = htons 1080\<rparr>"

definition example_socket6 :: SocketAddress where
  "example_socket6 = \<lparr>host = example_host6, port = htons 443\<rparr>"

section \<open>Outgoing interfaces (interface.c)\<close>

text \<open>
  The declarations of \<open>interface.h\<close> are not part of the sources at hand; the fields
  below are the ones \<open>interface.c\<close> reads and writes. An \<open>Interface\<close> holds the chain
  pointer \<open>next\<close>, the counter \<open>use_count\<close> (a C \<open>int\<close> updated with the wrapping
  atomic operations of GLib, hence a 32-bit word read in two's complement), the length
  \<open>len\<close> of its socket address and the socket address \<open>addr\<close> itself.

  A chain of interfaces linked through \<open>next\<close> is represented by the list of its nodes
  in traversal order, head first. The manager is the array \<open>ifaces\<close> of
  \<open>INTERFACE_N_TYPES\<close> such chains. A pointer \<open>Interface *\<close> into the manager is the
  pair of the array index and the position in the chain.
\<close>

datatype sa_family = AF_LOCAL | AF_INET | AF_INET6 | AF_OTHER nat

datatype protocol_family = PF_LOCAL | PF_INET | PF_INET6

record sockaddr =
  sa_family :: sa_family
  sa_port :: "16 word"
  sa_addr :: "8 word list"

record interface =
  use_count :: "32 word"
  len :: nat
  addr :: sockaddr

record interface_manager =
  ifaces :: "interface list list"

type_synonym interface_ptr = "nat \<times> nat"

text \<open>
  Modelled from the spec: the constants of \<open>interface.h\<close>. The family mask has
  bit 0 for INET and bit 1 for INET6, so the two offsets are 0 and 1 and there are two
  interface types.
\<close>

definition INTERFACE_OFF_INET :: nat where
  "INTERFACE_OFF_INET = 0"

definition INTERFACE_OFF_INET6 :: nat where
  "INTERFACE_OFF_INET6 = 1"

definition INTERFACE_N_TYPES :: nat where
  "INTERFACE_N_TYPES = 2"

text \<open>Reading and writing the interface a pointer designates.\<close>

definition deref :: "interface_manager \<Rightarrow> interface_ptr \<Rightarrow> interface" where
  "deref m p = ifaces m ! fst p ! snd p"

definition store :: "interface_manager \<Rightarrow> interface_ptr \<Rightarrow> interface \<Rightarrow> interface_manager" where
  "store m p x = m\<lparr>ifaces := (ifaces m)[fst p := (ifaces m ! fst p)[snd p := x]]\<rparr>"

definition valid_ptr :: "interface_manager \<Rightarrow> interface_ptr \<Rightarrow> bool" where
  "valid_ptr m p = (fst p < length (ifaces m) \<and> snd p < length (ifaces m ! fst p))"

text \<open>
  The program stops through \<open>abort_with_error\<close>, \<open>abort_with_liberror\<close> (both of the
  utilities, which are not among the sources) and GLib's \<open>g_error\<close>. Each carries the
  message it was given.
\<close>

datatype abort = Abort_with_error string | Abort_with_liberror string | G_error string

text \<open>
  \<open>find_namespace\<close>: maps \<open>AF_*\<close> values to \<open>PF_*\<close> values. For any other family it
  stops the program; the message carried is the format string handed to
  \<open>abort_with_error\<close>.
\<close>

definition find_namespace :: "sockaddr \<Rightarrow> abort + protocol_family" where
  "find_namespace a =
     (if sa_family a = AF_LOCAL then Inr PF_LOCAL
      else if sa_family a = AF_INET then Inr PF_INET
      else if sa_family a = AF_INET6 then Inr PF_INET6
      else Inl (Abort_with_error ''Unknown address format %d''))"

text \<open>
  \<open>interface_open\<close>: the results of the system calls \<open>socket\<close> and \<open>bind\<close> are inputs
  of the model. The function is declared to return \<open>int\<close> but ends in a bare
  \<open>return;\<close>, so it gives the caller no value; the model returns the interface as the
  call leaves it.
\<close>

definition interface_open :: "int \<Rightarrow> int \<Rightarrow> interface \<Rightarrow> abort + interface" where
  "interface_open socket_res bind_res interface =
     (case find_namespace (addr interface) of
        Inl e \<Rightarrow> Inl e
      | Inr pf \<Rightarrow>
          if socket_res < 0 then Inl (Abort_with_liberror ''socket()'')
          else if bind_res < 0 then Inl (Abort_with_liberror ''bind()'')
          else Inr (interface\<lparr>use_count := use_count interface + 1\<rparr>))"

text \<open>\<open>interface_close\<close>: adds \<open>-1\<close> to the counter.\<close>

definition interface_close :: "interface \<Rightarrow> interface" where
  "interface_close interface = interface\<lparr>use_count := use_count interface + (- 1)\<rparr>"

text \<open>The two calls on an interface that lives in the manager.\<close>

definition interface_open_at ::
  "int \<Rightarrow> int \<Rightarrow> interface_manager \<Rightarrow> interface_ptr \<Rightarrow> abort + interface_manager" where
  "interface_open_at socket_res bind_res m p =
     (case interface_open socket_res bind_res (deref m p) of
        Inl e \<Rightarrow> Inl e
      | Inr x \<Rightarrow> Inr (store m p x))"

definition interface_close_at :: "interface_manager \<Rightarrow> interface_ptr \<Rightarrow> interface_manager" where
  "interface_close_at m p = store m p (interface_close (deref m p))"

text \<open>\<open>interface_manager_new\<close>: every chain starts empty.\<close>

definition interface_manager_new :: interface_manager where
  "interface_manager_new = \<lparr>ifaces = replicate INTERFACE_N_TYPES []\<rparr>"

text \<open>
  \<open>interface_manager_get\<close>. The state of both loops is the manager together with the
  local \<open>selected\<close>; the inner loop walks the chain of type \<open>i\<close>, \<open>k\<close> being the position
  of \<open>iter\<close>. The comparison of the two counters is the signed one of C.
\<close>

fun get_chain ::
  "nat \<Rightarrow> nat \<Rightarrow> interface list \<Rightarrow> interface_manager \<times> interface_ptr option
     \<Rightarrow> interface_manager \<times> interface_ptr option" where
  "get_chain i k [] st = st"
| "get_chain i k (iter # rest) (m, selected) =
     get_chain i (Suc k) rest
       (m, case selected of
             None \<Rightarrow> Some (i, k)
           | Some s \<Rightarrow>
               if use_count iter <s use_count (deref m s) then Some (i, k) else Some s)"

fun get_types ::
  "32 word \<Rightarrow> nat list \<Rightarrow> interface_manager \<times> interface_ptr option
     \<Rightarrow> interface_manager \<times> interface_ptr option" where
  "get_types addr_type [] st = st"
| "get_types addr_type (i # is) (m, selected) =
     get_types addr_type is
       (if addr_type AND push_bit i 1 = 0 then (m, selected)
        else get_chain i 0 (ifaces m ! i) (m, selected))"

definition interface_manager_get ::
  "interface_manager \<Rightarrow> 32 word \<Rightarrow> interface_manager \<times> interface_ptr option" where
  "interface_manager_get manager addr_type =
     get_types addr_type [0 ..< INTERFACE_N_TYPES] (manager, None)"

text \<open>
  \<open>interface_manager_add_from_string\<close>. The first character tells the address type.
  For IPv6 the text up to the first \<open>]\<close> is cut out and read without its opening
  bracket. \<open>g_error\<close> stops the program. The new interface becomes the head of the chain
  of its type. The two lengths are the sizes of \<open>struct sockaddr_in\<close> and
  \<open>struct sockaddr_in6\<close>.
\<close>

definition add_interface :: "interface_manager \<Rightarrow> nat \<Rightarrow> interface \<Rightarrow> interface_manager" where
  "add_interface manager t interface =
     manager\<lparr>ifaces := (ifaces manager)[t := interface # ifaces manager ! t]\<rparr>"

definition interface_manager_add_from_string ::
  "interface_manager \<Rightarrow> string \<Rightarrow> abort + interface_manager" where
  "interface_manager_add_from_string manager desc =
     (if (case desc of [] \<Rightarrow> True | c # _ \<Rightarrow> c \<noteq> CHR ''['') then
        (case inet_pton4 desc of
           None \<Rightarrow> Inl (G_error (''Invalid address '' @ desc))
         | Some quad \<Rightarrow>
             Inr (add_interface manager INTERFACE_OFF_INET
                    \<lparr>use_count = 0, len = 16,
                     addr = \<lparr>sa_family = AF_INET, sa_port = 0, sa_addr = quad\<rparr>\<rparr>))
      else
        (if CHR '']'' \<notin> set desc then Inl (G_error (''Invalid address '' @ desc))
         else
           (case inet_pton6 (tl (takeWhile (\<lambda>c. c \<noteq> CHR '']'') desc)) of
              None \<Rightarrow> Inl (G_error (''Invalid address '' @ desc))
            | Some bytes \<Rightarrow>
                Inr (add_interface manager INTERFACE_OFF_INET6
                       \<lparr>use_count = 0, len = 28,
                        addr = \<lparr>sa_family = AF_INET6, sa_port = 0, sa_addr = bytes\<rparr>\<rparr>))))"

text \<open>Adding the interfaces of a list of descriptions, one after the other.\<close>

fun add_all :: "interface_manager \<Rightarrow> string list \<Rightarrow> abort + interface_manager" where
  "add_all manager [] = Inr manager"
| "add_all manager (desc # descs) =
     (case interface_manager_add_from_string manager desc of
        Inl e \<Rightarrow> Inl e
      | Inr manager' \<Rightarrow> add_all manager' descs)"

text \<open>
  Notions used to state what the selection returns. A type \<open>i\<close> is eligible when its
  bit is set in the mask; the candidates are the interfaces of the eligible chains, in
  the order in which the two loops meet them. \<open>pick_min\<close> is one step of the selection.
\<close>

definition eligible :: "32 word \<Rightarrow> nat \<Rightarrow> bool" where
  "eligible addr_type i = bit addr_type i"

definition chain_ptrs :: "interface_manager \<Rightarrow> nat \<Rightarrow> interface_ptr list" where
  "chain_ptrs m i = map (Pair i) [0 ..< length (ifaces m ! i)]"

definition candidates :: "interface_manager \<Rightarrow> 32 word \<Rightarrow> interface_ptr list" where
  "candidates m addr_type =
     concat (map (\<lambda>i. if eligible addr_type i then chain_ptrs m i else [])
                 [0 ..< INTERFACE_N_TYPES])"

definition pick_min ::
  "interface_manager \<Rightarrow> interface_ptr option \<Rightarrow> interface_ptr \<Rightarrow> interface_ptr option" where
  "pick_min m selected p =
     (case selected of
        None \<Rightarrow> Some p
      | Some s \<Rightarrow> if use_count (deref m p) <s use_count (deref m s) then Some p else Some s)"

text \<open>
  Runs of the manager. An acquire is a call of \<open>interface_open\<close> on an interface of the
  manager, with the results of its two system calls; a release is a call of
  \<open>interface_close\<close>. A run stops at the first call that ends the program. \<open>track\<close>
  counts, for every interface, the acquires that no release has matched yet; it has no
  result when a release comes without an acquire to match.
\<close>

datatype event = Acquire interface_ptr int int | Release interface_ptr

fun event_ptr :: "event \<Rightarrow> interface_ptr" where
  "event_ptr (Acquire p socket_res bind_res) = p"
| "event_ptr (Release p) = p"

fun run :: "interface_manager \<Rightarrow> event list \<Rightarrow> abort + interface_manager" where
  "run m [] = Inr m"
| "run m (Acquire p socket_res bind_res # es) =
     (case interface_open_at socket_res bind_res m p of
        Inl e \<Rightarrow> Inl e
      | Inr m' \<Rightarrow> run m' es)"
| "run m (Release p # es) = run (interface_close_at m p) es"

fun track :: "(interface_ptr \<Rightarrow> nat) \<Rightarrow> event list \<Rightarrow> (interface_ptr \<Rightarrow> nat) option" where
  "track n [] = Some n"
| "track n (Acquire p socket_res bind_res # es) = track (n(p := Suc (n p))) es"
| "track n (Release p # es) =
     (if n p = 0 then None else track (n(p := n p - 1)) es)"

definition outstanding :: "event list \<Rightarrow> interface_ptr \<Rightarrow> nat option" where
  "outstanding es p = map_option (\<lambda>n. n p) (track (\<lambda>q. 0) es)"

text \<open>
  The selection as the spec words it, to be compared with \<open>interface_manager_get\<close>.
  Modelled from the spec: the metric of an interface, a positive weight; nothing in
  \<open>interface.c\<close> reads or writes a metric, so it is a function given from outside. The
  interfaces come with the index of their family, in the order in which they were
  inserted. Among those whose family bit is set in the mask, the one chosen minimises
  the load ratio \<open>in_use / metric\<close>, compared by cross-multiplication, and of several
  that do, it is the one inserted first.
\<close>

definition load_le :: "(interface \<Rightarrow> nat) \<Rightarrow> interface \<Rightarrow> interface \<Rightarrow> bool" where
  "load_le metric x y =
     (sint (use_count x) * int (metric y) \<le> sint (use_count y) * int (metric x))"

definition spec_acquire ::
  "(interface \<Rightarrow> nat) \<Rightarrow> (nat \<times> interface) list \<Rightarrow> 32 word \<Rightarrow> interface option" where
  "spec_acquire metric inserted family_mask =
     (let cands = map snd (filter (\<lambda>(i, x). bit family_mask i) inserted)
      in find (\<lambda>x. list_all (load_le metric x) cands) cands)"

text \<open>An interface and a manager to run the functions on.\<close>

definition example_interface :: interface where
  "example_interface =
     \<lparr>use_count = 0, len = 16,
      addr = \<lparr>sa_family = AF_INET, sa_port = 0, sa_addr = [10, 0, 0, 1]\<rparr>\<rparr>"

definition example_manager :: interface_manager where
  "example_manager = \<lparr>ifaces = [[example_interface], []]\<rparr>"

definition example_interface2 :: interface where
  "example_interface2 =
     \<lparr>use_count = 0, len = 16,
      addr = \<lparr>sa_family = AF_INET, sa_port = 0, sa_addr = [10, 0, 0, 2]\<rparr>\<rparr>"

definition example_metric :: "interface \<Rightarrow> nat" where
  "example_metric x = (if sa_addr (addr x) = [10, 0, 0, 2] then 3 else 1)"

section \<open>The main program (main.c)\<close>

text \<open>
  \<open>main\<close> calls functions that are not among the sources: \<open>utils_init\<close>,
  \<open>connector_init\<close>, \<open>server_create\<close>, \<open>balancer_add_from_string\<close> and the event loop.
  The model records the calls in order. Whether a call comes back to \<open>main\<close> (rather
  than stopping the program, as the spec has it for a listener that cannot be bound and
  for an argument that cannot be read) is an input: the predicate \<open>returns\<close>.

  Modelled from the spec: \<open>abort_with_error\<close>, of the utilities, reports the message as a
  fatal error and ends the program with a status that is not zero.
\<close>

datatype call =
    Utils_init
  | Connector_init
  | Printf string
  | Server_create string
  | Balancer_add_from_string string
  | Event_base_loop

datatype ending =
    Exit int
  | Fatal_error string
  | Stopped_in call
  | Return int

record main_state =
  bound :: "32 word"
  iface_count :: "32 word"
  calls :: "call list"

definition usage :: string where
  "usage = ''Usage: $0 [--bind=addr:port] addr1@metric1 addr2@metric2 ...'' @ [CHR 0x0A]"

text \<open>A call: it is recorded, and \<open>main\<close> goes on only if it returns.\<close>

definition do_call :: "(call \<Rightarrow> bool) \<Rightarrow> call \<Rightarrow> main_state \<Rightarrow> (call list \<times> ending) + main_state" where
  "do_call returns c st =
     (if returns c then Inr (st\<lparr>calls := calls st @ [c]\<rparr>)
      else Inl (calls st @ [c], Stopped_in c))"

text \<open>The loop over \<open>argv[1]\<close> to \<open>argv[argc - 1]\<close>; \<open>len\<close> is \<open>strlen("--bind=")\<close>.\<close>

fun read_arguments ::
  "(call \<Rightarrow> bool) \<Rightarrow> string list \<Rightarrow> main_state \<Rightarrow> (call list \<times> ending) + main_state" where
  "read_arguments returns [] st = Inr st"
| "read_arguments returns (arg # args) st =
     (if arg = ''-h'' \<or> arg = ''--help'' then
        (case do_call returns (Printf usage) st of
           Inl stop \<Rightarrow> Inl stop
         | Inr st \<Rightarrow> Inl (calls st, Exit 1))
      else if take (length ''--bind='') arg = ''--bind='' then
        (case do_call returns (Server_create (drop (length ''--bind='') arg)) st of
           Inl stop \<Rightarrow> Inl stop
         | Inr st \<Rightarrow> read_arguments returns args (st\<lparr>bound := 1\<rparr>))
      else
        (case do_call returns (Balancer_add_from_string arg) st of
           Inl stop \<Rightarrow> Inl stop
         | Inr st \<Rightarrow> read_arguments returns args (st\<lparr>iface_count := iface_count st + 1\<rparr>)))"

definition default_listeners :: "(call \<Rightarrow> bool) \<Rightarrow> main_state \<Rightarrow> (call list \<times> ending) + main_state" where
  "default_listeners returns st =
     (if bound st = 0 then
        (case do_call returns (Server_create ''127.0.0.1:1080'') st of
           Inl stop \<Rightarrow> Inl stop
         | Inr st \<Rightarrow> do_call returns (Server_create ''[::1]:1080'') st)
      else Inr st)"

definition main :: "(call \<Rightarrow> bool) \<Rightarrow> string list \<Rightarrow> call list \<times> ending" where
  "main returns argv =
     (case do_call returns Utils_init \<lparr>bound = 0, iface_count = 0, calls = []\<rparr> of
        Inl stop \<Rightarrow> stop
      | Inr st \<Rightarrow>
     (case do_call returns Connector_init st of
        Inl stop \<Rightarrow> stop
      | Inr st \<Rightarrow>
     (case read_arguments returns (tl argv) st of
        Inl stop \<Rightarrow> stop
      | Inr st \<Rightarrow>
          if iface_count st = 0 then (calls st, Fatal_error ''No addresses to dispatch.'')
          else
            (case default_listeners returns st of
               Inl stop \<Rightarrow> stop
             | Inr st \<Rightarrow>
                 (case do_call returns Event_base_loop st of
                    Inl stop \<Rightarrow> stop
                  | Inr st \<Rightarrow> (calls st, Return 0))))))"

text \<open>
  The arguments that \<open>main\<close> hands to the balancer are the positional ones: those that
  are neither a help flag nor a \<open>--bind=\<close> argument.
\<close>

definition is_help :: "string \<Rightarrow> bool" where
  "is_help arg = (arg = ''-h'' \<or> arg = ''--help'')"

definition is_bind :: "string \<Rightarrow> bool" where
  "is_bind arg = (take (length ''--bind='') arg = ''--bind='')"

definition positional :: "string list \<Rightarrow> string list" where
  "positional argv = filter (\<lambda>arg. \<not> is_help arg \<and> \<not> is_bind arg) (tl argv)"

definition nonzero_exit :: "ending \<Rightarrow> bool" where
  "nonzero_exit e =
     (case e of Exit n \<Rightarrow> n \<noteq> 0 | Fatal_error msg \<Rightarrow> True | Stopped_in c \<Rightarrow> False
      | Return n \<Rightarrow> n \<noteq> 0)"

text \<open>The call that the loop makes for an argument that is not a help flag.\<close>

definition arg_call :: "string \<Rightarrow> call" where
  "arg_call arg =
     (if is_bind arg then Server_create (drop (length ''--bind='') arg)
      else Balancer_add_from_string arg)"

section \<open>Properties of the interface manager\<close>

subsection \<open>What the two loops of the selection compute\<close>

lemma mask_test: "(addr_type AND push_bit i 1 = 0) = (\<not> bit (addr_type :: 32 word) i)"
  by (metis and_exp_eq_0_iff_not_bit push_bit_of_1)

lemma mask_test_exp: "(addr_type AND 2 ^ i = 0) = (\<not> bit (addr_type :: 32 word) i)"
  by (rule and_exp_eq_0_iff_not_bit)

lemma get_chain_fst: "fst (get_chain i k xs st) = fst st"
  by (induction xs arbitrary: k st) (auto split: prod.splits)

lemma get_chain_snd:
  "k \<le> length (ifaces m ! i) \<Longrightarrow> xs = drop k (ifaces m ! i) \<Longrightarrow>
   snd (get_chain i k xs (m, selected)) =
     foldl (pick_min m) selected (map (Pair i) [k ..< length (ifaces m ! i)])"
proof (induction xs arbitrary: k selected)
  case Nil
  then show ?case by simp
next
  case (Cons iter rest)
  from Cons.prems have lt: "k < length (ifaces m ! i)"
    by (metis drop_eq_Nil2 le_antisym linorder_not_le list.distinct(1) nat_le_linear)
  have iter: "iter = deref m (i, k)"
    using Cons.prems lt by (metis Cons_nth_drop_Suc deref_def fst_conv list.inject snd_conv)
  have rest: "rest = drop (Suc k) (ifaces m ! i)"
    using Cons.prems lt by (metis Cons_nth_drop_Suc list.inject)
  have up: "[k ..< length (ifaces m ! i)] = k # [Suc k ..< length (ifaces m ! i)]"
    using lt by (simp add: upt_conv_Cons)
  show ?case
    using Cons.IH [OF _ rest] lt
    by (simp add: up pick_min_def iter split: option.splits)
qed

lemma get_types_fst: "fst (get_types t is st) = fst st"
proof (induction "is" arbitrary: st)
  case Nil
  then show ?case by simp
next
  case (Cons i "is")
  obtain m selected where st: "st = (m, selected)" by (cases st)
  show ?case using Cons.IH by (simp add: st get_chain_fst)
qed

lemma get_types_snd:
  "snd (get_types t is (m, selected)) =
     foldl (pick_min m) selected
       (concat (map (\<lambda>i. if eligible t i then chain_ptrs m i else []) is))"
proof (induction "is" arbitrary: selected)
  case Nil
  then show ?case by simp
next
  case (Cons i "is")
  show ?case
  proof (cases "eligible t i")
    case True
    obtain m' s' where g: "get_chain i 0 (ifaces m ! i) (m, selected) = (m', s')"
      by (cases "get_chain i 0 (ifaces m ! i) (m, selected)")
    have m': "m' = m" using get_chain_fst [of i 0 "ifaces m ! i" "(m, selected)"] g by simp
    have s': "s' = foldl (pick_min m) selected (chain_ptrs m i)"
      using get_chain_snd [of 0 m i "ifaces m ! i" selected] g by (simp add: chain_ptrs_def)
    show ?thesis using True Cons.IH [of s'] g m' s'
      by (simp add: mask_test_exp eligible_def)
  next
    case False
    then show ?thesis using Cons.IH [of selected] by (simp add: mask_test_exp eligible_def)
  qed
qed

lemma interface_manager_get_fst: "fst (interface_manager_get m t) = m"
  by (simp add: interface_manager_get_def get_types_fst)

lemma interface_manager_get_snd:
  "snd (interface_manager_get m t) = foldl (pick_min m) None (candidates m t)"
  by (simp add: interface_manager_get_def get_types_snd candidates_def)


lemma foldl_pick_min_first_min:
  "ps \<noteq> [] \<Longrightarrow>
   \<exists>pre p post. foldl (pick_min m) None ps = Some p \<and> ps = pre @ p # post \<and>
     (\<forall>q\<in>set pre. sint (use_count (deref m p)) < sint (use_count (deref m q))) \<and>
     (\<forall>q\<in>set post. sint (use_count (deref m p)) \<le> sint (use_count (deref m q)))"
proof (induction ps rule: rev_induct)
  case Nil
  then show ?case by simp
next
  case (snoc x ps)
  show ?case
  proof (cases "ps = []")
    case True
    then show ?thesis
      by (intro exI [of _ "[]"] exI [of _ x]) (simp add: pick_min_def)
  next
    case False
    from snoc.IH [OF False] obtain pre p post where
      f: "foldl (pick_min m) None ps = Some p" and ps: "ps = pre @ p # post" and
      pre: "\<forall>q\<in>set pre. sint (use_count (deref m p)) < sint (use_count (deref m q))" and
      post: "\<forall>q\<in>set post. sint (use_count (deref m p)) \<le> sint (use_count (deref m q))"
      by blast
    show ?thesis
    proof (cases "use_count (deref m x) <s use_count (deref m p)")
      case True
      then have lt: "sint (use_count (deref m x)) < sint (use_count (deref m p))"
        by (simp add: word_sless_alt)
      have r: "foldl (pick_min m) None (ps @ [x]) = Some x"
        using f True by (simp add: pick_min_def)
      have all: "\<forall>q\<in>set ps. sint (use_count (deref m x)) < sint (use_count (deref m q))"
        using lt pre post ps by fastforce
      show ?thesis
        using r all by (intro exI [of _ ps] exI [of _ x] exI [of _ "[]"]) simp
    next
      case False
      then have le: "sint (use_count (deref m p)) \<le> sint (use_count (deref m x))"
        by (simp add: word_sless_alt)
      have r: "foldl (pick_min m) None (ps @ [x]) = Some p"
        using f False by (simp add: pick_min_def)
      show ?thesis
        using r ps pre post le
        by (intro exI [of _ pre] exI [of _ p] exI [of _ "post @ [x]"]) simp
    qed
  qed
qed

lemma foldl_pick_min_None: "(foldl (pick_min m) None ps = None) = (ps = [])"
proof (cases "ps = []")
  case True
  then show ?thesis by simp
next
  case False
  then show ?thesis using foldl_pick_min_first_min [OF False, of m] by auto
qed

lemma types_upt: "[0 ..< INTERFACE_N_TYPES] = [0, 1]"
  by (simp add: INTERFACE_N_TYPES_def upt_rec)

lemma types_less: "(i < INTERFACE_N_TYPES) = (i = 0 \<or> i = 1)"
  by (auto simp: INTERFACE_N_TYPES_def)

lemma candidates_empty:
  "(candidates m t = []) = (\<forall>i<INTERFACE_N_TYPES. bit t i \<longrightarrow> ifaces m ! i = [])"
  by (auto simp: candidates_def eligible_def chain_ptrs_def types_upt types_less)

lemma candidates_member:
  "(p \<in> set (candidates m t)) =
     (fst p < INTERFACE_N_TYPES \<and> bit t (fst p) \<and> snd p < length (ifaces m ! fst p))"
  by (cases p) (auto simp: candidates_def eligible_def chain_ptrs_def types_upt types_less)

lemma interface_open_use_count:
  "interface_open s b x = Inr y \<Longrightarrow> y = x\<lparr>use_count := use_count x + 1\<rparr>"
  by (auto simp: interface_open_def split: sum.splits if_splits)

lemma interface_manager_get_valid:
  "snd (interface_manager_get m t) = Some p \<Longrightarrow> p \<in> set (candidates m t)"
proof -
  assume a: "snd (interface_manager_get m t) = Some p"
  then have ne: "candidates m t \<noteq> []"
    by (auto simp: interface_manager_get_snd)
  from foldl_pick_min_first_min [OF ne, of m] a show ?thesis
    by (auto simp: interface_manager_get_snd)
qed

subsection \<open>Reading and writing through a pointer\<close>

lemma deref_store_same: "valid_ptr m p \<Longrightarrow> deref (store m p x) p = x"
  by (simp add: deref_def store_def valid_ptr_def)

lemma deref_store_other: "q \<noteq> p \<Longrightarrow> deref (store m p x) q = deref m q"
proof (cases "fst q = fst p")
  case True
  assume "q \<noteq> p"
  with True have ne: "snd p \<noteq> snd q" by (auto simp: prod_eq_iff)
  show ?thesis
  proof (cases "fst p < length (ifaces m)")
    case True
    with \<open>fst q = fst p\<close> ne show ?thesis by (simp add: deref_def store_def)
  next
    case False
    then have "length (ifaces m) \<le> fst p" by simp
    then have "(ifaces m)[fst p := (ifaces m ! fst p)[snd p := x]] = ifaces m"
      by (rule list_update_beyond)
    then show ?thesis by (simp add: deref_def store_def)
  qed
next
  case False
  then show ?thesis by (simp add: deref_def store_def)
qed

lemma shape_store: "map length (ifaces (store m p x)) = map length (ifaces m)"
proof (cases "fst p < length (ifaces m)")
  case True
  then show ?thesis by (simp add: store_def map_update list_update_same_conv)
next
  case False
  then have "length (ifaces m) \<le> fst p" by simp
  then have "(ifaces m)[fst p := (ifaces m ! fst p)[snd p := x]] = ifaces m"
    by (rule list_update_beyond)
  then show ?thesis by (simp add: store_def)
qed

lemma valid_ptr_store: "valid_ptr (store m p x) q = valid_ptr m q"
proof (cases "fst q = fst p")
  case True
  then show ?thesis by (auto simp: valid_ptr_def store_def)
next
  case False
  then show ?thesis by (auto simp: valid_ptr_def store_def)
qed

lemma interface_open_at_Inr:
  "interface_open_at s b m p = Inr m' \<Longrightarrow>
     m' = store m p ((deref m p)\<lparr>use_count := use_count (deref m p) + 1\<rparr>)"
  by (auto simp: interface_open_at_def dest: interface_open_use_count split: sum.splits)

subsection \<open>Opening and closing an interface\<close>

text \<open>
  Claim C2. For every interface and every starting value of its counter, a successful
  \<open>interface_open\<close> adds exactly one to \<open>use_count\<close>, \<open>interface_close\<close> takes exactly
  one away, and closing after a successful open gives back the interface as it was
  before the open, counter included. The arithmetic is that of the 32-bit counter.
\<close>

theorem open_then_close_restores:
  "interface_open socket_res bind_res x = Inr y \<Longrightarrow>
     use_count y = use_count x + 1 \<and>
     use_count (interface_close y) = use_count y - 1 \<and>
     interface_close y = x"
  by (auto simp: interface_open_def interface_close_def split: sum.splits if_splits)

theorem open_then_close_restores_witness:
  "interface_open 3 0 example_interface = Inr (example_interface\<lparr>use_count := 1\<rparr>) \<and>
   use_count (example_interface\<lparr>use_count := 1\<rparr>) = use_count example_interface + 1 \<and>
   interface_close (example_interface\<lparr>use_count := 1\<rparr>) = example_interface"
proof -
  have h: "interface_open 3 0 example_interface = Inr (example_interface\<lparr>use_count := 1\<rparr>)"
    by (simp add: interface_open_def find_namespace_def example_interface_def)
  show ?thesis
    using h open_then_close_restores [OF h] by simp
qed

subsection \<open>When the selection finds nothing\<close>

text \<open>
  Claim C7. For every manager and family mask, \<open>interface_manager_get\<close> returns no
  interface exactly when every chain whose bit is set in the mask is empty; and an
  interface it returns lies in a chain whose bit is set in the mask.
\<close>

theorem get_none_iff_no_family_match:
  "(snd (interface_manager_get m t) = None) =
     (\<forall>i<INTERFACE_N_TYPES. bit t i \<longrightarrow> ifaces m ! i = []) \<and>
   (\<forall>p. snd (interface_manager_get m t) = Some p \<longrightarrow>
      fst p < INTERFACE_N_TYPES \<and> bit t (fst p) \<and> snd p < length (ifaces m ! fst p))"
  using interface_manager_get_valid [of m t]
  by (simp add: interface_manager_get_snd foldl_pick_min_None candidates_empty candidates_member)

theorem get_none_iff_no_family_match_witness:
  "snd (interface_manager_get example_manager 1) = Some (0, 0) \<and>
   bit (1 :: 32 word) 0 \<and>
   snd (interface_manager_get example_manager 2) = None \<and>
   ifaces example_manager ! 1 = []"
  using get_none_iff_no_family_match [of example_manager 1]
    get_none_iff_no_family_match [of example_manager 2]
  by (simp add: interface_manager_get_def INTERFACE_N_TYPES_def upt_rec example_manager_def)

subsection \<open>The selection writes nothing\<close>

text \<open>
  Claim C9. For every manager (an array of \<open>INTERFACE_N_TYPES\<close> chains) and family
  mask, \<open>interface_manager_get\<close> leaves the manager as it found it: the chains and every
  counter are unchanged. The counter of the selected interface changes only in the
  separate step \<open>interface_open\<close>, which adds one to it and touches no other interface.
\<close>

theorem get_is_read_only:
  assumes "length (ifaces m) = INTERFACE_N_TYPES"
  shows "fst (interface_manager_get m t) = m \<and>
    (\<forall>p socket_res bind_res m'.
       snd (interface_manager_get m t) = Some p \<longrightarrow>
       interface_open_at socket_res bind_res (fst (interface_manager_get m t)) p = Inr m' \<longrightarrow>
         use_count (deref m' p) = use_count (deref m p) + 1 \<and>
         (\<forall>q. q \<noteq> p \<longrightarrow> deref m' q = deref m q) \<and>
         map length (ifaces m') = map length (ifaces m))"
proof (intro conjI allI impI)
  show "fst (interface_manager_get m t) = m" by (rule interface_manager_get_fst)
next
  fix p socket_res bind_res m'
  assume sel: "snd (interface_manager_get m t) = Some p"
    and op: "interface_open_at socket_res bind_res (fst (interface_manager_get m t)) p = Inr m'"
  from interface_manager_get_valid [OF sel] assms have v: "valid_ptr m p"
    by (simp add: candidates_member valid_ptr_def)
  from op have m': "m' = store m p ((deref m p)\<lparr>use_count := use_count (deref m p) + 1\<rparr>)"
    by (simp add: interface_manager_get_fst interface_open_at_Inr)
  show "use_count (deref m' p) = use_count (deref m p) + 1"
    by (simp add: m' deref_store_same [OF v])
  show "map length (ifaces m') = map length (ifaces m)"
    by (simp add: m' shape_store)
  fix q :: interface_ptr
  assume "q \<noteq> p"
  then show "deref m' q = deref m q" by (simp add: m' deref_store_other)
qed


theorem get_is_read_only_witness:
  "length (ifaces example_manager) = INTERFACE_N_TYPES \<and>
   interface_manager_get example_manager 1 = (example_manager, Some (0, 0)) \<and>
   interface_open_at 3 0 example_manager (0, 0) =
     Inr \<lparr>ifaces = [[example_interface\<lparr>use_count := 1\<rparr>], []]\<rparr> \<and>
   use_count (deref \<lparr>ifaces = [[example_interface\<lparr>use_count := 1\<rparr>], []]\<rparr> (0, 0)) =
     use_count (deref example_manager (0, 0)) + 1"
proof -
  have h: "length (ifaces example_manager) = INTERFACE_N_TYPES"
    by (simp add: example_manager_def INTERFACE_N_TYPES_def)
  have g: "interface_manager_get example_manager 1 = (example_manager, Some (0, 0))"
    by (simp add: interface_manager_get_def INTERFACE_N_TYPES_def upt_rec example_manager_def)
  have o: "interface_open_at 3 0 example_manager (0, 0) =
      Inr \<lparr>ifaces = [[example_interface\<lparr>use_count := 1\<rparr>], []]\<rparr>"
    by (simp add: interface_open_at_def interface_open_def find_namespace_def deref_def
        store_def example_manager_def example_interface_def)
  show ?thesis
    using h g o get_is_read_only [OF h, of 1] by simp
qed

subsection \<open>Which interface the selection returns\<close>

lemma add_interface_head:
  assumes "i < length (ifaces m)"
  shows "ifaces (add_interface m i x) ! i = x # ifaces m ! i \<and>
     (\<forall>j. j \<noteq> i \<longrightarrow> ifaces (add_interface m i x) ! j = ifaces m ! j)"
  using assms by (simp add: add_interface_def)

lemma add_from_string_Inr:
  assumes "interface_manager_add_from_string m desc = Inr m'"
  shows "\<exists>i x. i < INTERFACE_N_TYPES \<and> use_count x = 0 \<and> m' = add_interface m i x"
proof (cases "case desc of [] \<Rightarrow> True | c # _ \<Rightarrow> c \<noteq> CHR ''[''")
  case True
  with assms obtain quad where
    "m' = add_interface m INTERFACE_OFF_INET
       \<lparr>use_count = 0, len = 16,
        addr = \<lparr>sa_family = AF_INET, sa_port = 0, sa_addr = quad\<rparr>\<rparr>"
    by (auto simp: interface_manager_add_from_string_def split: option.splits)
  then show ?thesis
    by (intro exI [of _ INTERFACE_OFF_INET]
        exI [of _ "\<lparr>use_count = 0, len = 16,
          addr = \<lparr>sa_family = AF_INET, sa_port = 0, sa_addr = quad\<rparr>\<rparr>"])
      (simp add: INTERFACE_OFF_INET_def INTERFACE_N_TYPES_def)
next
  case False
  with assms obtain bytes where
    "m' = add_interface m INTERFACE_OFF_INET6
       \<lparr>use_count = 0, len = 28,
        addr = \<lparr>sa_family = AF_INET6, sa_port = 0, sa_addr = bytes\<rparr>\<rparr>"
    by (auto simp: interface_manager_add_from_string_def split: option.splits if_splits)
  then show ?thesis
    by (intro exI [of _ INTERFACE_OFF_INET6]
        exI [of _ "\<lparr>use_count = 0, len = 28,
          addr = \<lparr>sa_family = AF_INET6, sa_port = 0, sa_addr = bytes\<rparr>\<rparr>"])
      (simp add: INTERFACE_OFF_INET6_def INTERFACE_N_TYPES_def)
qed

lemma add_first:
  "interface_manager_add_from_string interface_manager_new ''10.0.0.1'' = Inr example_manager"
  by (simp add: interface_manager_add_from_string_def inet_pton4_def dec_digit_value_def
      add_interface_def interface_manager_new_def INTERFACE_N_TYPES_def INTERFACE_OFF_INET_def
      example_manager_def example_interface_def eval_nat_numeral)

lemma add_second:
  "interface_manager_add_from_string example_manager ''10.0.0.2'' =
     Inr \<lparr>ifaces = [[example_interface2, example_interface], []]\<rparr>"
  by (simp add: interface_manager_add_from_string_def inet_pton4_def dec_digit_value_def
      add_interface_def INTERFACE_OFF_INET_def
      example_manager_def example_interface2_def)

text \<open>
  Claim C1, as stated: the interface returned minimises \<open>in_use / metric\<close>, and of several
  that do it is the one inserted first. \<open>interface.c\<close> has no metric and compares the
  counters alone, keeping the interface met first; a new interface becomes the head of
  its chain, so within a family the one met first is the one inserted last. After
  \<open>10.0.0.1\<close> and then \<open>10.0.0.2\<close> were added, both unused, the selection returns
  \<open>10.0.0.2\<close>, where the spec has \<open>10.0.0.1\<close>. With one session on an interface of
  metric 1 and two on an interface of metric 3, the selection returns the former, where
  the spec has the latter (\<open>2 / 3 < 1 / 1\<close>).
\<close>

theorem get_selects_least_use_count_counterexample:
  "add_all interface_manager_new [''10.0.0.1'', ''10.0.0.2''] =
     Inr \<lparr>ifaces = [[example_interface2, example_interface], []]\<rparr> \<and>
   interface_manager_get \<lparr>ifaces = [[example_interface2, example_interface], []]\<rparr> 1 =
     (\<lparr>ifaces = [[example_interface2, example_interface], []]\<rparr>, Some (0, 0)) \<and>
   deref \<lparr>ifaces = [[example_interface2, example_interface], []]\<rparr> (0, 0) = example_interface2 \<and>
   spec_acquire (\<lambda>x. 1) [(0, example_interface), (0, example_interface2)] 1 =
     Some example_interface \<and>
   interface_manager_get
     \<lparr>ifaces = [[example_interface\<lparr>use_count := 1\<rparr>, example_interface2\<lparr>use_count := 2\<rparr>], []]\<rparr> 1 =
     (\<lparr>ifaces = [[example_interface\<lparr>use_count := 1\<rparr>, example_interface2\<lparr>use_count := 2\<rparr>], []]\<rparr>,
      Some (0, 0)) \<and>
   spec_acquire example_metric
     [(0, example_interface2\<lparr>use_count := 2\<rparr>), (0, example_interface\<lparr>use_count := 1\<rparr>)] 1 =
     Some (example_interface2\<lparr>use_count := 2\<rparr>)"
proof -
  have a: "add_all interface_manager_new [''10.0.0.1'', ''10.0.0.2''] =
     Inr \<lparr>ifaces = [[example_interface2, example_interface], []]\<rparr>"
    by (simp add: add_first add_second)
  have g: "interface_manager_get \<lparr>ifaces = [[example_interface2, example_interface], []]\<rparr> 1 =
     (\<lparr>ifaces = [[example_interface2, example_interface], []]\<rparr>, Some (0, 0))"
    by (simp add: interface_manager_get_def INTERFACE_N_TYPES_def upt_rec deref_def
        example_interface_def example_interface2_def)
  have d: "deref \<lparr>ifaces = [[example_interface2, example_interface], []]\<rparr> (0, 0) = example_interface2"
    by (simp add: deref_def)
  have s: "spec_acquire (\<lambda>x. 1) [(0, example_interface), (0, example_interface2)] 1 =
     Some example_interface"
    by (simp add: spec_acquire_def load_le_def example_interface_def example_interface2_def)
  have g2: "interface_manager_get
     \<lparr>ifaces = [[example_interface\<lparr>use_count := 1\<rparr>, example_interface2\<lparr>use_count := 2\<rparr>], []]\<rparr> 1 =
     (\<lparr>ifaces = [[example_interface\<lparr>use_count := 1\<rparr>, example_interface2\<lparr>use_count := 2\<rparr>], []]\<rparr>,
      Some (0, 0))"
    by (simp add: interface_manager_get_def INTERFACE_N_TYPES_def upt_rec deref_def
        example_interface_def example_interface2_def word_sless_alt)
  have s2: "spec_acquire example_metric
     [(0, example_interface2\<lparr>use_count := 2\<rparr>), (0, example_interface\<lparr>use_count := 1\<rparr>)] 1 =
     Some (example_interface2\<lparr>use_count := 2\<rparr>)"
    by (simp add: spec_acquire_def load_le_def example_metric_def example_interface_def
        example_interface2_def)
  show ?thesis using a g d s g2 s2 by simp
qed

text \<open>
  Claim C1, amended. For every manager (an array of \<open>INTERFACE_N_TYPES\<close> chains) and
  family mask with at least one eligible interface, \<open>interface_manager_get\<close> returns the
  eligible interface whose \<open>use_count\<close> is least; the metric plays no part. Of several
  with the least count it returns the one its loops meet first: every interface met
  before has a strictly greater count. The loops go through the INET chain before the
  INET6 chain and through each chain from its head, and
  \<open>interface_manager_add_from_string\<close> puts the new interface, with count zero, at the
  head of its chain and leaves the other chain alone.
\<close>

theorem get_selects_least_use_count:
  assumes "length (ifaces m) = INTERFACE_N_TYPES"
  shows "(candidates m t \<noteq> [] \<longrightarrow>
      (\<exists>before p after.
         interface_manager_get m t = (m, Some p) \<and> candidates m t = before @ p # after \<and>
         (\<forall>q\<in>set before. sint (use_count (deref m p)) < sint (use_count (deref m q))) \<and>
         (\<forall>q\<in>set after. sint (use_count (deref m p)) \<le> sint (use_count (deref m q))))) \<and>
    (\<forall>desc m'. interface_manager_add_from_string m desc = Inr m' \<longrightarrow>
      (\<exists>i x. i < INTERFACE_N_TYPES \<and> use_count x = 0 \<and>
         ifaces m' ! i = x # ifaces m ! i \<and>
         (\<forall>j. j \<noteq> i \<longrightarrow> ifaces m' ! j = ifaces m ! j)))"
proof (intro conjI impI allI)
  assume ne: "candidates m t \<noteq> []"
  from foldl_pick_min_first_min [OF ne, of m] obtain before p after where
    f: "foldl (pick_min m) None (candidates m t) = Some p" and
    c: "candidates m t = before @ p # after" and
    b: "\<forall>q\<in>set before. sint (use_count (deref m p)) < sint (use_count (deref m q))" and
    a: "\<forall>q\<in>set after. sint (use_count (deref m p)) \<le> sint (use_count (deref m q))"
    by blast
  have "interface_manager_get m t = (m, Some p)"
    by (rule prod_eqI) (simp_all add: interface_manager_get_fst interface_manager_get_snd f)
  with c b a show "\<exists>before p after.
         interface_manager_get m t = (m, Some p) \<and> candidates m t = before @ p # after \<and>
         (\<forall>q\<in>set before. sint (use_count (deref m p)) < sint (use_count (deref m q))) \<and>
         (\<forall>q\<in>set after. sint (use_count (deref m p)) \<le> sint (use_count (deref m q)))"
    by blast
next
  fix desc m'
  assume "interface_manager_add_from_string m desc = Inr m'"
  from add_from_string_Inr [OF this] obtain i x where
    i: "i < INTERFACE_N_TYPES" and u: "use_count x = 0" and m': "m' = add_interface m i x"
    by blast
  from i assms have "i < length (ifaces m)" by simp
  from add_interface_head [OF this, of x] i u m'
  show "\<exists>i x. i < INTERFACE_N_TYPES \<and> use_count x = 0 \<and>
         ifaces m' ! i = x # ifaces m ! i \<and>
         (\<forall>j. j \<noteq> i \<longrightarrow> ifaces m' ! j = ifaces m ! j)"
    by blast
qed

theorem get_selects_least_use_count_witness:
  "candidates \<lparr>ifaces = [[example_interface2, example_interface], []]\<rparr> 1 = [(0, 0), (0, 1)] \<and>
   interface_manager_get \<lparr>ifaces = [[example_interface2, example_interface], []]\<rparr> 1 =
     (\<lparr>ifaces = [[example_interface2, example_interface], []]\<rparr>, Some (0, 0)) \<and>
   interface_manager_add_from_string example_manager ''10.0.0.2'' =
     Inr \<lparr>ifaces = [[example_interface2, example_interface], []]\<rparr>"
proof -
  have l: "length (ifaces \<lparr>ifaces = [[example_interface2, example_interface], []]\<rparr>) = INTERFACE_N_TYPES"
    by (simp add: INTERFACE_N_TYPES_def)
  have l2: "length (ifaces example_manager) = INTERFACE_N_TYPES"
    by (simp add: INTERFACE_N_TYPES_def example_manager_def)
  have c: "candidates \<lparr>ifaces = [[example_interface2, example_interface], []]\<rparr> 1 = [(0, 0), (0, 1)]"
    by (simp add: candidates_def eligible_def chain_ptrs_def types_upt)
  have g: "interface_manager_get \<lparr>ifaces = [[example_interface2, example_interface], []]\<rparr> 1 =
     (\<lparr>ifaces = [[example_interface2, example_interface], []]\<rparr>, Some (0, 0))"
    by (simp add: interface_manager_get_def INTERFACE_N_TYPES_def upt_rec deref_def
        example_interface_def example_interface2_def)
  show ?thesis
    using c g add_second get_selects_least_use_count [OF l, of 1]
      get_selects_least_use_count [OF l2, of 1]
    by simp
qed

subsection \<open>The counter along a run\<close>

lemma interface_close_at_deref_same:
  "valid_ptr m p \<Longrightarrow>
     deref (interface_close_at m p) p = (deref m p)\<lparr>use_count := use_count (deref m p) - 1\<rparr>"
  by (simp add: interface_close_at_def interface_close_def deref_store_same)

lemma run_counts:
  assumes "\<forall>e\<in>set es. valid_ptr m (event_ptr e)"
    and "run m es = Inr m'"
    and "track n es = Some n'"
    and "\<forall>q. valid_ptr m q \<longrightarrow> use_count (deref m q) = of_nat (n q)"
  shows "\<forall>q. valid_ptr m q \<longrightarrow> use_count (deref m' q) = of_nat (n' q)"
  using assms
proof (induction es arbitrary: m n)
  case Nil
  then show ?case by simp
next
  case (Cons e es)
  show ?case
  proof (cases e)
    case (Acquire p s b)
    with Cons.prems obtain m1 where o: "interface_open_at s b m p = Inr m1" and r: "run m1 es = Inr m'"
      by (auto split: sum.splits)
    from Cons.prems Acquire have vp: "valid_ptr m p" by simp
    from o have m1: "m1 = store m p ((deref m p)\<lparr>use_count := use_count (deref m p) + 1\<rparr>)"
      by (rule interface_open_at_Inr)
    have v: "\<And>q. valid_ptr m1 q = valid_ptr m q" by (simp add: m1 valid_ptr_store)
    have t: "track (n(p := Suc (n p))) es = Some n'" using Cons.prems Acquire by simp
    have c: "\<forall>q. valid_ptr m1 q \<longrightarrow> use_count (deref m1 q) = of_nat ((n(p := Suc (n p))) q)"
    proof (intro allI impI)
      fix q assume "valid_ptr m1 q"
      then have vq: "valid_ptr m q" by (simp add: v)
      show "use_count (deref m1 q) = of_nat ((n(p := Suc (n p))) q)"
      proof (cases "q = p")
        case True
        from Cons.prems(4) vp have "use_count (deref m p) = of_nat (n p)" by blast
        then show ?thesis using True vp by (simp add: m1 deref_store_same)
      next
        case False
        from Cons.prems(4) vq have "use_count (deref m q) = of_nat (n q)" by blast
        then show ?thesis using False by (simp add: m1 deref_store_other)
      qed
    qed
    have e: "\<forall>e\<in>set es. valid_ptr m1 (event_ptr e)" using Cons.prems(1) by (simp add: v)
    from Cons.IH [OF e r t c] show ?thesis by (simp add: v)
  next
    case (Release p)
    let ?m1 = "interface_close_at m p"
    from Cons.prems Release have r: "run ?m1 es = Inr m'" by simp
    from Cons.prems Release have vp: "valid_ptr m p" by simp
    from Cons.prems Release have pos: "n p \<noteq> 0" and t: "track (n(p := n p - 1)) es = Some n'"
      by (auto split: if_splits)
    have v: "\<And>q. valid_ptr ?m1 q = valid_ptr m q"
      by (simp add: interface_close_at_def valid_ptr_store)
    have c: "\<forall>q. valid_ptr ?m1 q \<longrightarrow> use_count (deref ?m1 q) = of_nat ((n(p := n p - 1)) q)"
    proof (intro allI impI)
      fix q assume "valid_ptr ?m1 q"
      then have vq: "valid_ptr m q" by (simp add: v)
      show "use_count (deref ?m1 q) = of_nat ((n(p := n p - 1)) q)"
      proof (cases "q = p")
        case True
        have d: "(of_nat (n p) :: 32 word) - 1 = of_nat (n p - 1)"
          using pos by (cases "n p") simp_all
        from Cons.prems(4) vp have "use_count (deref m p) = of_nat (n p)" by blast
        then show ?thesis using True d vp
          by (simp add: interface_close_at_deref_same)
      next
        case False
        from Cons.prems(4) vq have "use_count (deref m q) = of_nat (n q)" by blast
        then show ?thesis using False
          by (simp add: interface_close_at_def deref_store_other)
      qed
    qed
    have e: "\<forall>e\<in>set es. valid_ptr ?m1 (event_ptr e)" using Cons.prems(1) by (simp add: v)
    from Cons.IH [OF e r t c] show ?thesis by (simp add: v)
  qed
qed

lemma sint_count:
  assumes "n < 2 ^ 31"
  shows "sint (of_nat n :: 32 word) = int n"
proof -
  have "sint (of_nat n :: 32 word) = sint (word_of_int (int n) :: 32 word)" by simp
  also have "\<dots> = signed_take_bit 31 (int n)" by (simp only: sint_sbintrunc') simp
  also have "\<dots> = int n"
    using assms by (simp add: signed_take_bit_int_eq_self)
  finally show ?thesis .
qed

lemma store_deref: "store m p (deref m p) = m"
  by (simp add: store_def deref_def)

lemma store_store: "store (store m p x) p y = store m p y"
proof (cases "fst p < length (ifaces m)")
  case True
  then show ?thesis by (simp add: store_def)
next
  case False
  then have "length (ifaces m) \<le> fst p" by simp
  then show ?thesis by (simp add: store_def list_update_beyond)
qed

lemma run_replicate_acquire:
  assumes "valid_ptr m p" and "find_namespace (addr (deref m p)) = Inr pf"
    and "0 \<le> s" and "0 \<le> b"
  shows "run m (replicate k (Acquire p s b)) =
     Inr (store m p ((deref m p)\<lparr>use_count := use_count (deref m p) + of_nat k\<rparr>))"
  using assms(1,2)
proof (induction k arbitrary: m)
  case 0
  then show ?case by (simp add: store_deref)
next
  case (Suc k)
  let ?x = "(deref m p)\<lparr>use_count := use_count (deref m p) + 1\<rparr>"
  let ?m1 = "store m p ?x"
  have o: "interface_open_at s b m p = Inr ?m1"
    using Suc.prems assms(3,4) by (simp add: interface_open_at_def interface_open_def)
  have v: "valid_ptr ?m1 p" using Suc.prems by (simp add: valid_ptr_store)
  have d: "deref ?m1 p = ?x" using Suc.prems by (simp add: deref_store_same)
  have f: "find_namespace (addr (deref ?m1 p)) = Inr pf" using Suc.prems by (simp add: d)
  have ih: "run ?m1 (replicate k (Acquire p s b)) =
      Inr (store ?m1 p ((deref ?m1 p)\<lparr>use_count := use_count (deref ?m1 p) + of_nat k\<rparr>))"
    by (rule Suc.IH [OF v f])
  have e: "store ?m1 p ((deref ?m1 p)\<lparr>use_count := use_count (deref ?m1 p) + of_nat k\<rparr>) =
      store m p ((deref m p)\<lparr>use_count := use_count (deref m p) + of_nat (Suc k)\<rparr>)"
    unfolding d by (simp add: store_store ac_simps)
  show ?case
    using o ih unfolding e by simp
qed

lemma track_replicate_acquire:
  "track n (replicate k (Acquire p s b)) = Some (n(p := n p + k))"
proof (induction k arbitrary: n)
  case 0
  then show ?case by simp
next
  case (Suc k)
  show ?case by (simp add: Suc.IH) (rule ext, simp)
qed

text \<open>
  Claim C3, as stated: in every state reached by acquires and matching releases, the
  counter of each interface is not negative and equals the number of acquires not yet
  released. The counter is a 32-bit \<open>int\<close> and the increment wraps around: after \<open>2^31\<close>
  acquires of one interface without a release, its counter reads \<open>-2^31\<close>.
\<close>

theorem use_count_is_outstanding_counterexample:
  "run example_manager (replicate (2 ^ 31) (Acquire (0, 0) 3 0)) =
     Inr \<lparr>ifaces = [[example_interface\<lparr>use_count := 2 ^ 31\<rparr>], []]\<rparr> \<and>
   outstanding (replicate (2 ^ 31) (Acquire (0, 0) 3 0)) (0, 0) = Some (2 ^ 31) \<and>
   sint (use_count (deref \<lparr>ifaces = [[example_interface\<lparr>use_count := 2 ^ 31\<rparr>], []]\<rparr> (0, 0)))
     = - (2 ^ 31)"
proof -
  have v: "valid_ptr example_manager (0, 0)"
    by (simp add: valid_ptr_def example_manager_def)
  have f: "find_namespace (addr (deref example_manager (0, 0))) = Inr PF_INET"
    by (simp add: find_namespace_def deref_def example_manager_def example_interface_def)
  have r: "run example_manager (replicate (2 ^ 31) (Acquire (0, 0) 3 0)) =
     Inr \<lparr>ifaces = [[example_interface\<lparr>use_count := 2 ^ 31\<rparr>], []]\<rparr>"
    using run_replicate_acquire [OF v f, of 3 0 "2 ^ 31"]
    by (simp add: store_def deref_def example_manager_def example_interface_def)
  have t: "outstanding (replicate (2 ^ 31) (Acquire (0, 0) 3 0)) (0, 0) = Some (2 ^ 31)"
    by (simp add: outstanding_def track_replicate_acquire)
  have s: "sint (use_count (deref \<lparr>ifaces = [[example_interface\<lparr>use_count := 2 ^ 31\<rparr>], []]\<rparr> (0, 0)))
     = - (2 ^ 31)"
    by (simp add: deref_def)
  show ?thesis using r t s by simp
qed

text \<open>
  Claim C3, amended. Start from a manager whose counters are all zero, as
  \<open>interface_manager_add_from_string\<close> creates them, and run any sequence of successful
  acquires and of releases that each match an earlier acquire. Then, for every interface
  with fewer than \<open>2^31\<close> acquires not yet released, the counter equals the number of
  these acquires, and so is not negative.
\<close>

theorem use_count_is_outstanding:
  assumes "\<forall>q. valid_ptr m q \<longrightarrow> use_count (deref m q) = 0"
    and "\<forall>e\<in>set es. valid_ptr m (event_ptr e)"
    and "run m es = Inr m'"
    and "outstanding es p = Some k"
    and "valid_ptr m p"
    and "k < 2 ^ 31"
  shows "sint (use_count (deref m' p)) = int k \<and> 0 \<le> sint (use_count (deref m' p))"
proof -
  from assms(4) obtain n where tr: "track (\<lambda>q. 0) es = Some n" and k: "k = n p"
    by (auto simp: outstanding_def)
  have "\<forall>q. valid_ptr m q \<longrightarrow> use_count (deref m q) = of_nat ((\<lambda>q. 0 :: nat) q)"
    using assms(1) by simp
  from run_counts [OF assms(2) assms(3) tr this] assms(5)
  have "use_count (deref m' p) = of_nat k" unfolding k by blast
  then show ?thesis using sint_count [OF assms(6)] by simp
qed

theorem use_count_is_outstanding_witness:
  "run example_manager [Acquire (0, 0) 3 0, Acquire (0, 0) 4 0, Release (0, 0)] =
     Inr \<lparr>ifaces = [[example_interface\<lparr>use_count := 1\<rparr>], []]\<rparr> \<and>
   outstanding [Acquire (0, 0) 3 0, Acquire (0, 0) 4 0, Release (0, 0)] (0, 0) = Some 1 \<and>
   sint (use_count (deref \<lparr>ifaces = [[example_interface\<lparr>use_count := 1\<rparr>], []]\<rparr> (0, 0))) = 1"
proof -
  have z: "\<forall>q. valid_ptr example_manager q \<longrightarrow> use_count (deref example_manager q) = 0"
    by (auto simp: valid_ptr_def deref_def example_manager_def example_interface_def
        nth_Cons split: nat.splits)
  have e: "\<forall>e\<in>set [Acquire (0, 0) 3 0, Acquire (0, 0) 4 0, Release (0, 0)].
      valid_ptr example_manager (event_ptr e)"
    by (simp add: valid_ptr_def example_manager_def)
  have r: "run example_manager [Acquire (0, 0) 3 0, Acquire (0, 0) 4 0, Release (0, 0)] =
     Inr \<lparr>ifaces = [[example_interface\<lparr>use_count := 1\<rparr>], []]\<rparr>"
    by (simp add: interface_open_at_def interface_open_def interface_close_at_def
        interface_close_def find_namespace_def store_def deref_def example_manager_def
        example_interface_def)
  have t: "outstanding [Acquire (0, 0) 3 0, Acquire (0, 0) 4 0, Release (0, 0)] (0, 0) = Some 1"
    by (simp add: outstanding_def)
  have v: "valid_ptr example_manager (0, 0)"
    by (simp add: valid_ptr_def example_manager_def)
  have k: "(1 :: nat) < 2 ^ 31" by simp
  show ?thesis
    using r t use_count_is_outstanding [OF z e r t v k] by simp
qed

section \<open>Properties of the address functions\<close>

subsection \<open>Splitting a string\<close>

lemma bracket_state_append:
  "foldl bracket_step b (l @ [d]) = bracket_step (foldl bracket_step b l) d"
  by simp

lemma split_from_None: "d \<notin> set s \<Longrightarrow> split_from b s d = None"
  by (induction s arbitrary: b) auto

lemma split_from_Some:
  "split_from b s d = Some (l, r) \<Longrightarrow>
     s = l @ d # r \<and> \<not> foldl bracket_step b l \<and>
     split_from (bracket_step (foldl bracket_step b l) d) r d = None"
proof (induction s arbitrary: b l r)
  case Nil
  then show ?case by simp
next
  case (Cons c cs)
  show ?case
  proof (cases "split_from (bracket_step b c) cs d")
    case None
    with Cons.prems have "c = d" "\<not> b" "l = []" "r = cs"
      by (auto split: if_splits)
    with None show ?thesis by simp
  next
    case (Some q)
    obtain l' r' where q: "q = (l', r')" by (cases q)
    with Some Cons.prems have l: "l = c # l'" and r: "r = r'" by auto
    from Cons.IH [OF Some [unfolded q]]
    have 1: "cs = l' @ d # r'"
      and 2: "\<not> foldl bracket_step (bracket_step b c) l'"
      and 3: "split_from (bracket_step (foldl bracket_step (bracket_step b c) l') d) r' d = None"
      by blast+
    have 4: "foldl bracket_step b (c # l') = foldl bracket_step (bracket_step b c) l'" by simp
    show ?thesis unfolding l r 4 using 1 2 3 by auto
  qed
qed

lemma split_from_last:
  "\<not> foldl bracket_step b l \<Longrightarrow>
   split_from (bracket_step (foldl bracket_step b l) d) r d = None \<Longrightarrow>
   split_from b (l @ d # r) d = Some (l, r)"
  by (induction l arbitrary: b) auto

lemma decimal_value_digits:
  "decimal_value acc s = Some v \<Longrightarrow> \<forall>c\<in>set s. dec_digit_value c \<noteq> None"
  by (induction s arbitrary: acc) (auto split: option.splits)

lemma decimal_value_no_colon:
  assumes "decimal_value acc s = Some v"
  shows "CHR '':'' \<notin> set s"
proof
  assume "CHR '':'' \<in> set s"
  with decimal_value_digits [OF assms] have "dec_digit_value CHR '':'' \<noteq> None" by blast
  then show False by (simp add: dec_digit_value_def)
qed

subsection \<open>What a failed parse leaves behind\<close>

lemma host_address_from_str_failure:
  "fst (host_address_from_str str addr_out) = STATUS_FAILURE \<Longrightarrow>
     snd (host_address_from_str str addr_out) = addr_out"
  by (auto simp: host_address_from_str_def Let_def split: list.splits option.splits if_splits prod.splits)

lemma host_address_from_str_out:
  "host_address_from_str str addr_out = (STATUS_SUCCESS, h) \<Longrightarrow>
     host_address_from_str str addr_out' = (STATUS_SUCCESS, h)"
  by (auto simp: host_address_from_str_def Let_def split: list.splits option.splits if_splits prod.splits)

lemma socket_address_from_str_failure:
  "fst (socket_address_from_str str addr_out) = STATUS_FAILURE \<Longrightarrow>
     snd (socket_address_from_str str addr_out) = addr_out"
  by (auto simp: socket_address_from_str_def Let_def split: option.splits if_splits prod.splits)

text \<open>
  Claim C10. For every input string, \<open>host_address_from_str\<close> and
  \<open>socket_address_from_str\<close> write to the address their second argument points to only
  on success: when either returns \<open>STATUS_FAILURE\<close>, that address is as it was before
  the call.
\<close>

theorem from_str_failure_keeps_output:
  "(fst (host_address_from_str str h) = STATUS_FAILURE \<longrightarrow>
      snd (host_address_from_str str h) = h) \<and>
   (fst (socket_address_from_str str a) = STATUS_FAILURE \<longrightarrow>
      snd (socket_address_from_str str a) = a)"
  using host_address_from_str_failure [of str h] socket_address_from_str_failure [of str a]
  by blast

theorem from_str_failure_keeps_output_witness:
  "host_address_from_str ''1.2.3:80'' example_host = (STATUS_FAILURE, example_host) \<and>
   socket_address_from_str ''1.2.3:80'' \<lparr>host = example_host, port = 7\<rparr> =
     (STATUS_FAILURE, \<lparr>host = example_host, port = 7\<rparr>)"
proof -
  have i: "inet_pton4 ''1.2.3'' = None"
    by (simp add: inet_pton4_def dec_digit_value_def)
  have h: "fst (host_address_from_str ''1.2.3:80'' example_host) = STATUS_FAILURE"
    by (simp add: host_address_from_str_def isspace_def inet_pton4_def dec_digit_value_def)
  have sp: "split_string ''1.2.3:80'' CHR '':'' = Some (''1.2.3'', ''80'')"
    by (simp add: split_string_def bracket_step_def)
  have pl: "parse_long ''80'' = Some 80"
    by (simp add: parse_long_def dec_digit_value_def)
  have hs: "host_address_from_str ''1.2.3'' zeroed_host = (STATUS_FAILURE, zeroed_host)"
    by (simp add: host_address_from_str_def isspace_def i)
  have s: "fst (socket_address_from_str ''1.2.3:80'' \<lparr>host = example_host, port = 7\<rparr>) =
      STATUS_FAILURE"
    by (simp add: socket_address_from_str_def sp pl hs)
  have k: "snd (host_address_from_str ''1.2.3:80'' example_host) = example_host \<and>
      snd (socket_address_from_str ''1.2.3:80'' \<lparr>host = example_host, port = 7\<rparr>) =
        \<lparr>host = example_host, port = 7\<rparr>"
    using h s from_str_failure_keeps_output
      [of "''1.2.3:80''" example_host "\<lparr>host = example_host, port = 7\<rparr>"]
    by blast
  have r1: "host_address_from_str ''1.2.3:80'' example_host = (STATUS_FAILURE, example_host)"
    by (rule prod_eqI) (simp_all only: h k fst_conv snd_conv)
  have r2: "socket_address_from_str ''1.2.3:80'' \<lparr>host = example_host, port = 7\<rparr> =
     (STATUS_FAILURE, \<lparr>host = example_host, port = 7\<rparr>)"
    by (rule prod_eqI) (simp_all only: s k fst_conv snd_conv)
  show ?thesis
    using r1 r2 by (rule conjI)
qed

subsection \<open>What \<open>socket_address_from_str\<close> accepts\<close>

text \<open>
  Claim C6. For every input string, \<open>socket_address_from_str\<close> succeeds exactly when
  the string consists of a host part, a colon that lies outside brackets and is the last
  colon of the string, and a port part that is a decimal number from 1 to 65535, and
  \<open>host_address_from_str\<close> accepts the host part. The address delivered has that host
  and that port, in network byte order. In particular a port part that reads 0, or a
  number above 65535, makes the parse fail. The split and the range are those of
  \<open>split_string\<close> and \<open>parse_long\<close>; \<open>socket_address_from_str\<close> itself only tests that
  the port part is not empty.
\<close>

theorem socket_address_from_str_accepts:
  "(socket_address_from_str str addr_out = (STATUS_SUCCESS, a)) =
     (\<exists>host_str port_str v h.
        str = host_str @ CHR '':'' # port_str \<and> \<not> in_brackets host_str \<and>
        CHR '':'' \<notin> set port_str \<and>
        port_str \<noteq> [] \<and> decimal_value 0 port_str = Some v \<and> 1 \<le> v \<and> v \<le> 65535 \<and>
        host_address_from_str host_str zeroed_host = (STATUS_SUCCESS, h) \<and>
        a = \<lparr>host = h, port = htons (word_of_int (int v))\<rparr>)"
proof
  assume s: "socket_address_from_str str addr_out = (STATUS_SUCCESS, a)"
  then obtain host_str port_str where sp: "split_string str CHR '':'' = Some (host_str, port_str)"
    by (auto simp: socket_address_from_str_def split: option.splits)
  with s have ne: "port_str \<noteq> []"
    by (auto simp: socket_address_from_str_def split: if_splits)
  with s sp obtain p where p: "parse_long port_str = Some p"
    by (auto simp: socket_address_from_str_def split: option.splits)
  then obtain v where v: "decimal_value 0 port_str = Some v" and r: "1 \<le> v" "v \<le> 65535"
    and pv: "p = int v"
    by (auto simp: parse_long_def split: if_splits option.splits)
  obtain res h where hs: "host_address_from_str host_str zeroed_host = (res, h)"
    by (cases "host_address_from_str host_str zeroed_host")
  with s sp ne p have res: "res = STATUS_SUCCESS"
    and a: "a = \<lparr>host = h, port = htons (word_of_int p)\<rparr>"
    by (auto simp: socket_address_from_str_def split: if_splits)
  from split_from_Some [OF sp [unfolded split_string_def]]
  have d: "str = host_str @ CHR '':'' # port_str" and o: "\<not> in_brackets host_str"
    by (simp_all add: in_brackets_def)
  have nc: "CHR '':'' \<notin> set port_str" using v by (rule decimal_value_no_colon)
  from d o nc ne v r hs res a pv show "\<exists>host_str port_str v h.
        str = host_str @ CHR '':'' # port_str \<and> \<not> in_brackets host_str \<and>
        CHR '':'' \<notin> set port_str \<and>
        port_str \<noteq> [] \<and> decimal_value 0 port_str = Some v \<and> 1 \<le> v \<and> v \<le> 65535 \<and>
        host_address_from_str host_str zeroed_host = (STATUS_SUCCESS, h) \<and>
        a = \<lparr>host = h, port = htons (word_of_int (int v))\<rparr>"
    by blast
next
  assume "\<exists>host_str port_str v h.
        str = host_str @ CHR '':'' # port_str \<and> \<not> in_brackets host_str \<and>
        CHR '':'' \<notin> set port_str \<and>
        port_str \<noteq> [] \<and> decimal_value 0 port_str = Some v \<and> 1 \<le> v \<and> v \<le> 65535 \<and>
        host_address_from_str host_str zeroed_host = (STATUS_SUCCESS, h) \<and>
        a = \<lparr>host = h, port = htons (word_of_int (int v))\<rparr>"
  then obtain host_str port_str v h where
    d: "str = host_str @ CHR '':'' # port_str" and o: "\<not> in_brackets host_str" and
    nc: "CHR '':'' \<notin> set port_str" and
    ne: "port_str \<noteq> []" and v: "decimal_value 0 port_str = Some v" and
    r: "1 \<le> v" "v \<le> 65535" and
    hs: "host_address_from_str host_str zeroed_host = (STATUS_SUCCESS, h)" and
    a: "a = \<lparr>host = h, port = htons (word_of_int (int v))\<rparr>"
    by blast
  have "split_from (bracket_step (foldl bracket_step False host_str) CHR '':'') port_str CHR '':''
      = None"
    using nc by (rule split_from_None)
  with o have sp: "split_string str CHR '':'' = Some (host_str, port_str)"
    unfolding split_string_def d in_brackets_def by (intro split_from_last)
  have p: "parse_long port_str = Some (int v)"
    using ne v r by (simp add: parse_long_def)
  show "socket_address_from_str str addr_out = (STATUS_SUCCESS, a)"
    using sp ne p hs a by (simp add: socket_address_from_str_def)
qed


theorem socket_address_from_str_accepts_witness:
  "socket_address_from_str ''127.0.0.1:1080'' \<lparr>host = zeroed_host, port = 7\<rparr> =
     (STATUS_SUCCESS, \<lparr>host = example_host, port = htons 1080\<rparr>) \<and>
   socket_address_from_str ''127.0.0.1:0'' \<lparr>host = zeroed_host, port = 7\<rparr> \<noteq>
     (STATUS_SUCCESS, \<lparr>host = example_host, port = htons 0\<rparr>) \<and>
   socket_address_from_str ''127.0.0.1:65536'' \<lparr>host = zeroed_host, port = 7\<rparr> \<noteq>
     (STATUS_SUCCESS, \<lparr>host = example_host, port = htons 0\<rparr>)"
proof -
  have h: "host_address_from_str ''127.0.0.1'' zeroed_host = (STATUS_SUCCESS, example_host)"
    by (simp add: host_address_from_str_def isspace_def inet_pton4_def dec_digit_value_def
        zeroed_ip_def example_host_def)
  have v: "decimal_value 0 ''1080'' = Some 1080"
    by (simp add: dec_digit_value_def)
  have 1: "socket_address_from_str ''127.0.0.1:1080'' \<lparr>host = zeroed_host, port = 7\<rparr> =
     (STATUS_SUCCESS, \<lparr>host = example_host, port = htons 1080\<rparr>)"
  proof -
    have c1: "''127.0.0.1:1080'' = ''127.0.0.1'' @ CHR '':'' # ''1080''" by simp
    have c2: "\<not> in_brackets ''127.0.0.1''" by (simp add: in_brackets_def bracket_step_def)
    have c3: "CHR '':'' \<notin> set ''1080''" by simp
    have c4: "''1080'' \<noteq> []" by simp
    have c5: "(1 :: nat) \<le> 1080" "(1080 :: nat) \<le> 65535" by simp_all
    have c6: "\<lparr>host = example_host, port = htons 1080\<rparr> =
        \<lparr>host = example_host, port = htons (word_of_int (int 1080))\<rparr>" by simp
    show ?thesis
      unfolding socket_address_from_str_accepts
      using c1 c2 c3 c4 v c5 h c6 by blast
  qed
  have z: "parse_long ''0'' = None" "parse_long ''65536'' = None"
    by (simp_all add: parse_long_def dec_digit_value_def)
  have s0: "split_string ''127.0.0.1:0'' CHR '':'' = Some (''127.0.0.1'', ''0'')"
    by (simp add: split_string_def bracket_step_def)
  have s1: "split_string ''127.0.0.1:65536'' CHR '':'' = Some (''127.0.0.1'', ''65536'')"
    by (simp add: split_string_def bracket_step_def)
  have 2: "socket_address_from_str ''127.0.0.1:0'' \<lparr>host = zeroed_host, port = 7\<rparr> \<noteq>
     (STATUS_SUCCESS, \<lparr>host = example_host, port = htons 0\<rparr>)"
    by (simp add: socket_address_from_str_def s0 z)
  have 3: "socket_address_from_str ''127.0.0.1:65536'' \<lparr>host = zeroed_host, port = 7\<rparr> \<noteq>
     (STATUS_SUCCESS, \<lparr>host = example_host, port = htons 0\<rparr>)"
    by (simp add: socket_address_from_str_def s1 z)
  show ?thesis using 1 2 3 by simp
qed

subsection \<open>Bytes, groups and digits\<close>

lemma unat_word_cat16:
  "unat (word_cat (a :: 8 word) (b :: 8 word) :: 16 word) = unat a * 256 + unat b"
proof -
  have a: "unat a < 256" using unsigned_less [of a, where ?'a = nat] by simp
  have b: "unat b < 256" using unsigned_less [of b, where ?'a = nat] by simp
  have "unat (word_cat a b :: 16 word) = unat (push_bit 8 (ucast a :: 16 word) + ucast b)"
    by (simp add: word_cat_eq)
  also have "\<dots> = (unat a * 256 + unat b) mod 65536"
    by (simp add: unat_word_ariths unsigned_push_bit_eq unsigned_ucast_eq take_bit_eq_mod push_bit_eq_mult mod_simps)
  also have "\<dots> = unat a * 256 + unat b"
    using a b by simp
  finally show ?thesis .
qed

lemma ntohs_pun16:
  "ntohs (word_cat (b1 :: 8 word) (b0 :: 8 word) :: 16 word) = word_cat b0 b1"
  by (rule bit_word_eqI) (auto simp: ntohs_def bit_simps)

lemma unat_nibble:
  "unat (drop_bit k (w :: 16 word) AND 15) = unat w div 2 ^ k mod 16"
proof -
  have m: "(15 :: nat) = mask 4" by (simp add: mask_eq_exp_minus_1)
  have "unat (drop_bit k w AND 15) = unat (drop_bit k w) AND 15"
    by (simp add: unsigned_and_eq)
  also have "\<dots> = take_bit 4 (unat (drop_bit k w))"
    by (simp only: m take_bit_eq_mask)
  also have "\<dots> = take_bit 4 (drop_bit k (unat w))"
    by (simp only: unat_drop_bit_eq)
  also have "\<dots> = unat w div 2 ^ k mod 16"
    by (simp add: take_bit_eq_mod drop_bit_eq_div)
  finally show ?thesis .
qed

lemma word_cat_zero: "((word_cat (a :: 8 word) (b :: 8 word) :: 16 word) = 0) = (a = 0 \<and> b = 0)"
proof -
  have "((word_cat a b :: 16 word) = 0) = (unat (word_cat a b :: 16 word) = 0)"
    by (simp add: unat_0_iff)
  also have "\<dots> = (unat a = 0 \<and> unat b = 0)" by (simp add: unat_word_cat16)
  also have "\<dots> = (a = 0 \<and> b = 0)" by (simp add: unat_0_iff)
  finally show ?thesis .
qed

lemma store16_group:
  "store16 tp (unat (a :: 8 word) * 256 + unat (b :: 8 word)) = tp @ [a, b]"
proof -
  have a: "unat a < 256" using unsigned_less [of a, where ?'a = nat] by simp
  have b: "unat b < 256" using unsigned_less [of b, where ?'a = nat] by simp
  have 1: "(unat a * 256 + unat b) div 256 mod 256 = unat a" using a b by simp
  have 2: "(unat a * 256 + unat b) mod 256 = unat b" using a b by simp
  show ?thesis unfolding store16_def 1 2 by simp
qed


lemma write_chunk_digits:
  assumes d: "\<And>k. unat (drop_bit k w AND 15) = f k"
  shows "write_chunk w =
      (if f 12 \<noteq> 0 then [lut ! (f 12)] else []) @
      (if f 12 \<noteq> 0 \<or> f 8 \<noteq> 0 then [lut ! (f 8)] else []) @
      (if f 12 \<noteq> 0 \<or> f 8 \<noteq> 0 \<or> f 4 \<noteq> 0 then [lut ! (f 4)] else []) @
      [lut ! (f 0)]"
  using d [of 0] by (simp add: write_chunk_def d Let_def)

lemma hex_text_digits:
  fixes n :: nat
  assumes "n < 65536"
  shows "hex_text n =
      (if n div 4096 \<noteq> 0 then [lut ! (n div 4096)] else []) @
      (if n div 256 \<noteq> 0 then [lut ! (n div 256 mod 16)] else []) @
      (if n div 16 \<noteq> 0 then [lut ! (n div 16 mod 16)] else []) @
      [lut ! (n mod 16)]"
proof -
  consider (one) "n < 16" | (two) "16 \<le> n" "n < 256" | (three) "256 \<le> n" "n < 4096"
    | (four) "4096 \<le> n"
    by linarith
  then show ?thesis
  proof cases
    case one
    then have z: "n div 4096 = 0" "n div 256 = 0" "n div 16 = 0" by simp_all
    show ?thesis unfolding z using one by (simp add: hex_text.simps [of n] lut_def)
  next
    case two
    then have a: "n div 16 < 16" "n div 16 \<noteq> 0" "\<not> n < 16" by simp_all
    from two have z: "n div 4096 = 0" "n div 256 = 0" by simp_all
    have h: "hex_text n = [lut ! (n div 16), lut ! (n mod 16)]"
      using a by (simp add: hex_text.simps [of n] hex_text.simps [of "n div 16"] lut_def)
    show ?thesis unfolding z h using a by simp
  next
    case three
    then have a: "n div 256 < 16" "n div 256 \<noteq> 0" "\<not> n < 16" "\<not> n div 16 < 16" "n div 16 \<noteq> 0"
      by simp_all
    from three have z: "n div 4096 = 0" by simp
    have c: "n div 16 div 16 = n div 256" by (simp add: div_mult2_eq [symmetric])
    have h: "hex_text n = [lut ! (n div 256), lut ! (n div 16 mod 16), lut ! (n mod 16)]"
      using a by (simp add: hex_text.simps [of n] hex_text.simps [of "n div 16"]
          hex_text.simps [of "n div 256"] c lut_def)
    show ?thesis unfolding z h using a by simp
  next
    case four
    then have a: "n div 4096 < 16" "n div 4096 \<noteq> 0" "\<not> n < 16" "\<not> n div 16 < 16"
      "\<not> n div 256 < 16" "n div 16 \<noteq> 0" "n div 256 \<noteq> 0"
      using assms by simp_all
    have c: "n div 16 div 16 = n div 256" "n div 256 div 16 = n div 4096"
      by (simp_all add: div_mult2_eq [symmetric])
    have h: "hex_text n =
        [lut ! (n div 4096), lut ! (n div 256 mod 16), lut ! (n div 16 mod 16), lut ! (n mod 16)]"
      using a by (simp add: hex_text.simps [of n] hex_text.simps [of "n div 16"]
          hex_text.simps [of "n div 256"] hex_text.simps [of "n div 4096"] c lut_def)
    show ?thesis unfolding h using a by simp
  qed
qed

lemma nibble_tests:
  fixes q :: nat
  shows "(q div 16 \<noteq> 0 \<or> q mod 16 \<noteq> 0) = (q \<noteq> 0)"
    and "(q div 256 \<noteq> 0 \<or> q div 16 mod 16 \<noteq> 0 \<or> q mod 16 \<noteq> 0) = (q \<noteq> 0)"
proof -
  show "(q div 16 \<noteq> 0 \<or> q mod 16 \<noteq> 0) = (q \<noteq> 0)"
    using div_mult_mod_eq [of q 16] by auto
  have "q div 256 = q div 16 div 16" by (simp add: div_mult2_eq [symmetric])
  then show "(q div 256 \<noteq> 0 \<or> q div 16 mod 16 \<noteq> 0 \<or> q mod 16 \<noteq> 0) = (q \<noteq> 0)"
    using div_mult_mod_eq [of q 16] div_mult_mod_eq [of "q div 16" 16] by auto
qed

lemma write_chunk_hex: "write_chunk w = hex_text (unat w)"
proof -
  define n where "n = unat w"
  have n: "n < 65536" using unsigned_less [of w, where ?'a = nat] by (simp add: n_def)
  have d: "\<And>k. unat (drop_bit k w AND 15) = n div 2 ^ k mod 16"
    by (simp add: unat_nibble n_def)
  have c1: "n div 256 div 16 = n div 4096" by (simp add: div_mult2_eq [symmetric])
  have c2: "n div 16 div 256 = n div 4096" by (simp add: div_mult2_eq [symmetric])
  have c3: "n div 16 div 16 = n div 256" by (simp add: div_mult2_eq [symmetric])
  have p: "(2 :: nat) ^ 12 = 4096" "(2 :: nat) ^ 8 = 256" "(2 :: nat) ^ 4 = 16" "(2 :: nat) ^ 0 = 1"
    by simp_all
  have e1: "n div 4096 mod 16 = n div 4096" using n by simp
  have e2: "(n div 4096 \<noteq> 0 \<or> n div 256 mod 16 \<noteq> 0) = (n div 256 \<noteq> 0)"
    using nibble_tests(1) [of "n div 256"] unfolding c1 .
  have e3: "(n div 4096 \<noteq> 0 \<or> n div 256 mod 16 \<noteq> 0 \<or> n div 16 mod 16 \<noteq> 0) =
      (n div 16 \<noteq> 0)"
    using nibble_tests(2) [of "n div 16"] unfolding c2 c3 .
  have "write_chunk w =
      (if n div 4096 \<noteq> 0 then [lut ! (n div 4096)] else []) @
      (if n div 256 \<noteq> 0 then [lut ! (n div 256 mod 16)] else []) @
      (if n div 16 \<noteq> 0 then [lut ! (n div 16 mod 16)] else []) @
      [lut ! (n mod 16)]"
    unfolding write_chunk_digits [of w "\<lambda>k. n div 2 ^ k mod 16", OF d] p e1 e2 e3 div_by_1
    by (rule refl)
  then show ?thesis
    unfolding n_def [symmetric] hex_text_digits [OF n] .
qed

lemma hex_digit_value_lut:
  assumes "d < 16"
  shows "hex_digit_value (''0123456789abcdef'' ! d) = Some d"
proof -
  have "list_all (\<lambda>d. hex_digit_value (''0123456789abcdef'' ! d) = Some d) [0 ..< 16]"
    by code_simp
  then show ?thesis using assms by (simp add: list_all_iff)
qed

lemma dec_digit_value_digit_char:
  assumes "d < 10"
  shows "dec_digit_value (digit_char d) = Some d"
proof -
  have "list_all (\<lambda>d. dec_digit_value (digit_char d) = Some d) [0 ..< 10]"
    by code_simp
  then show ?thesis using assms by (simp add: list_all_iff)
qed


subsection \<open>The loop that writes an IPv6 address\<close>

lemma join_snoc:
  "join sep (xs @ [x]) = (if xs = [] then x else join sep xs @ sep @ x)"
  by (induction sep xs rule: join.induct) auto

lemma write_chunk_chunk: "write_chunk (ntohs (pun16 bytes i)) = chunk bytes i"
  by (simp add: pun16_def ntohs_pun16 write_chunk_hex unat_word_cat16 chunk_def)

lemma write_address_step_chunk:
  assumes "i < 8" and "int i \<noteq> maxpos"
  shows "write_address bytes maxpos maxlen (int i) flag out =
     write_address bytes maxpos maxlen (int (Suc i)) True
       ((if flag then out @ '':'' else out) @ chunk bytes i)"
  using assms
  by (subst write_address.simps) (simp add: write_chunk_chunk add.commute)

lemma write_address_step_zeroes:
  assumes "i < 8"
  shows "write_address bytes (int i) (int n) (int i) flag out =
     write_address bytes (int i) (int n) (int (i + n)) False (out @ ''::'')"
  using assms
  by (subst write_address.simps) simp

lemma write_address_end:
  "8 \<le> i \<Longrightarrow> write_address bytes maxpos maxlen (int i) flag out = Some out"
  by (subst write_address.simps) simp

lemma write_address_chunks:
  assumes "i \<le> j" and "j \<le> 8" and "\<forall>k. i \<le> k \<and> k < j \<longrightarrow> int k \<noteq> maxpos"
  shows "write_address bytes maxpos maxlen (int i) flag out =
     write_address bytes maxpos maxlen (int j) (flag \<or> i < j)
       (out @ (if flag \<and> i < j then '':'' else []) @ join '':'' (map (chunk bytes) [i ..< j]))"
  using assms
proof (induction j rule: dec_induct)
  case base
  then show ?case by simp
next
  case (step n)
  have n8: "n < 8" using step.prems by simp
  have nm: "int n \<noteq> maxpos" using step.prems step.hyps by simp
  have ih: "write_address bytes maxpos maxlen (int i) flag out =
     write_address bytes maxpos maxlen (int n) (flag \<or> i < n)
       (out @ (if flag \<and> i < n then '':'' else []) @ join '':'' (map (chunk bytes) [i ..< n]))"
    using step.IH step.prems by simp
  show ?case
  proof (cases "i < n")
    case True
    then have ne: "map (chunk bytes) [i ..< n] \<noteq> []" by simp
    show ?thesis
      using True step.hyps ne
      by (simp add: ih write_address_step_chunk [OF n8 nm] join_snoc)
  next
    case False
    then have e: "i = n" using step.hyps by simp
    show ?thesis
      unfolding e by (simp add: write_address_step_chunk [OF n8 nm])
  qed
qed

lemma write_address_plain:
  "write_address bytes (- 1) 0 0 False out =
     Some (out @ join '':'' (map (chunk bytes) [0 ..< 8]))"
proof -
  have "write_address bytes (- 1) 0 (int 0) False out =
     write_address bytes (- 1) 0 (int 8) (False \<or> (0 :: nat) < 8)
       (out @ (if False \<and> (0 :: nat) < 8 then '':'' else []) @
          join '':'' (map (chunk bytes) [0 ..< 8]))"
    by (rule write_address_chunks) simp_all
  also have "\<dots> = Some (out @ (if False \<and> (0 :: nat) < 8 then '':'' else []) @
          join '':'' (map (chunk bytes) [0 ..< 8]))"
    by (rule write_address_end) simp
  finally show ?thesis by simp
qed

lemma write_address_compressed:
  assumes "1 \<le> n" and "p + n \<le> 8"
  shows "write_address bytes (int p) (int n) 0 False out =
     Some (out @ join '':'' (map (chunk bytes) [0 ..< p]) @ ''::'' @
           join '':'' (map (chunk bytes) [p + n ..< 8]))"
proof -
  have p8: "p < 8" using assms by simp
  let ?out1 = "out @ (if False \<and> 0 < p then '':'' else []) @
      join '':'' (map (chunk bytes) [0 ..< p])"
  let ?out2 = "(?out1 @ ''::'') @ (if False \<and> p + n < 8 then '':'' else []) @
      join '':'' (map (chunk bytes) [p + n ..< 8])"
  have "write_address bytes (int p) (int n) (int 0) False out =
     write_address bytes (int p) (int n) (int p) (False \<or> 0 < p) ?out1"
    using assms by (intro write_address_chunks) simp_all
  also have "\<dots> = write_address bytes (int p) (int n) (int (p + n)) False (?out1 @ ''::'')"
    by (rule write_address_step_zeroes [OF p8])
  also have "\<dots> = write_address bytes (int p) (int n) (int 8) (False \<or> p + n < 8) ?out2"
    using assms by (intro write_address_chunks) simp_all
  also have "\<dots> = Some ?out2"
    by (rule write_address_end) simp
  finally show ?thesis by simp
qed


subsection \<open>The loop that looks for the zero groups\<close>

lemma all_flags_agree: "list_all flags_agree (List.n_lists 8 [False, True])"
  by code_simp

lemma flags_agree_8:
  assumes "length zs = 8"
  shows "flags_agree zs"
proof -
  have "zs \<in> set (List.n_lists 8 [False, True])"
    using assms by (auto simp: set_n_lists)
  then show ?thesis using all_flags_agree by (simp add: list_all_iff)
qed

lemma find_zeroes_flags:
  "find_zeroes bytes = find_zeroes_flags (map (\<lambda>i. pun16 bytes i = 0) [0 ..< 8])"
proof -
  have "foldl (find_zeroes_step bytes) (- 1, 0, - 1, 0) [0 ..< 8] =
      foldl (find_zeroes_flags_step (map (\<lambda>i. pun16 bytes i = 0) [0 ..< 8])) (- 1, 0, - 1, 0) [0 ..< 8]"
  proof (rule foldl_cong [OF refl refl])
    fix st :: "int \<times> int \<times> int \<times> int" and i :: nat
    assume "i \<in> set [0 ..< 8]"
    then have i: "i < 8" by simp
    have "map (\<lambda>i. pun16 bytes i = 0) [0 ..< 8] ! i = (pun16 bytes i = 0)"
      using i by (simp del: upt_Suc)
    then show "find_zeroes_step bytes st i =
        find_zeroes_flags_step (map (\<lambda>i. pun16 bytes i = 0) [0 ..< 8]) st i"
      by (simp add: find_zeroes_step_def find_zeroes_flags_step_def del: upt_Suc)
  qed
  then show ?thesis by (simp add: find_zeroes_def find_zeroes_flags_def del: upt_Suc)
qed

lemma zero_run_flags:
  "zero_run gs i = length (takeWhile (\<lambda>z. z) (drop i (map (\<lambda>g. g = 0) gs)))"
  by (simp add: zero_run_def drop_map takeWhile_map comp_def)

lemma longest_zero_run_cong:
  assumes "map (\<lambda>g. g = 0) gs = map (\<lambda>g. g = 0) gs'"
  shows "longest_zero_run gs = longest_zero_run gs'"
proof -
  have l: "length gs = length gs'" using assms by (metis length_map)
  have z: "zero_run gs = zero_run gs'" by (rule ext) (simp add: zero_run_flags assms)
  show ?thesis by (simp add: longest_zero_run_def Let_def l z)
qed

lemma group_zero:
  "(unat (bytes ! (2 * i)) * 256 + unat (bytes ! (2 * i + 1)) = 0) = (pun16 bytes i = 0)"
  by (auto simp: pun16_def word_cat_zero unat_0_iff)

lemma find_zeroes_longest:
  "find_zeroes bytes = zero_run_code (longest_zero_run (groups16 bytes))"
proof -
  let ?zs = "map (\<lambda>i. pun16 bytes i = 0) [0 ..< 8]"
  have f: "map (\<lambda>g. g = 0) (groups16 bytes) = ?zs"
    unfolding groups16_def map_map comp_def group_zero ..
  have "map (\<lambda>g. g = 0) (groups16 bytes) =
      map (\<lambda>g. g = 0) (map (\<lambda>z. if z then 0 else (1 :: nat)) ?zs)"
    unfolding f by (simp del: upt_Suc)
  then have c: "longest_zero_run (groups16 bytes) =
      longest_zero_run (map (\<lambda>z. if z then 0 else 1) ?zs)"
    by (rule longest_zero_run_cong)
  have "length ?zs = 8" by simp
  from flags_agree_8 [OF this] show ?thesis
    by (simp add: flags_agree_def find_zeroes_flags c del: upt_Suc)
qed

lemma fold_max_ge: "a \<le> fold max xs (a :: nat)"
  by (induction xs arbitrary: a) (auto intro: order_trans [OF max.cobounded2])

lemma fold_max_zero: "fold max xs (0 :: nat) = 0 \<Longrightarrow> \<forall>x\<in>set xs. x = 0"
proof (induction xs)
  case Nil
  then show ?case by simp
next
  case (Cons x xs)
  have "max x 0 \<le> fold max xs (max x 0)" by (rule fold_max_ge)
  with Cons.prems have x: "x = 0" by simp
  with Cons show ?case by simp
qed

lemma longest_zero_run_Some:
  assumes "longest_zero_run gs = Some (p, n)"
  shows "1 \<le> n \<and> p + n \<le> length gs \<and> (\<forall>k<n. gs ! (p + k) = 0)"
proof -
  let ?L = "fold max (map (zero_run gs) [0 ..< length gs]) 0"
  from assms have L: "?L \<noteq> 0" and n: "n = ?L"
    and f: "find (\<lambda>i. zero_run gs i = ?L) [0 ..< length gs] = Some p"
    by (auto simp: longest_zero_run_def Let_def split: if_splits)
  from f have p: "p < length gs" and r: "zero_run gs p = n"
    by (auto simp: find_Some_iff n)
  have le: "zero_run gs p \<le> length gs - p"
    unfolding zero_run_def by (rule order_trans [OF length_takeWhile_le]) simp
  have z: "\<forall>k<n. gs ! (p + k) = 0"
  proof (intro allI impI)
    fix k assume k: "k < n"
    then have kk: "k < length (takeWhile (\<lambda>g. g = 0) (drop p gs))"
      using r by (simp add: zero_run_def)
    have "takeWhile (\<lambda>g. g = 0) (drop p gs) ! k = drop p gs ! k"
      using kk by (rule takeWhile_nth)
    moreover have "takeWhile (\<lambda>g. g = 0) (drop p gs) ! k = 0"
      using nth_mem [OF kk] by (auto dest: set_takeWhileD)
    moreover have "drop p gs ! k = gs ! (p + k)"
      using p k le r by simp
    ultimately show "gs ! (p + k) = 0" by simp
  qed
  from L n have "1 \<le> n" by simp
  moreover have "p + n \<le> length gs" using le r p by simp
  ultimately show ?thesis using z by simp
qed

lemma longest_zero_run_None:
  assumes "longest_zero_run gs = None"
  shows "\<forall>g\<in>set gs. g \<noteq> 0"
proof
  fix g assume "g \<in> set gs"
  then obtain i where i: "i < length gs" and g: "gs ! i = g"
    by (auto simp: in_set_conv_nth)
  let ?L = "fold max (map (zero_run gs) [0 ..< length gs]) 0"
  have L: "?L = 0"
  proof (rule ccontr)
    assume nz: "?L \<noteq> 0"
    have "find (\<lambda>i. zero_run gs i = ?L) [0 ..< length gs] = None"
      using assms nz by (simp add: longest_zero_run_def Let_def)
    then have no: "\<forall>i<length gs. zero_run gs i \<noteq> ?L"
      by (simp add: find_None_iff)
    have "\<And>a xs. fold max xs (a :: nat) = a \<or> fold max xs a \<in> set xs"
    proof -
      fix a :: nat and xs
      show "fold max xs a = a \<or> fold max xs a \<in> set xs"
      proof (induction xs arbitrary: a)
        case Nil
        then show ?case by simp
      next
        case (Cons x xs)
        from Cons [of "max x a"] show ?case by (auto simp: max_def split: if_splits)
      qed
    qed
    from this [of "map (zero_run gs) [0 ..< length gs]" 0] nz no
    show False by auto
  qed
  from fold_max_zero [OF L] i have "zero_run gs i = 0" by simp
  then have "takeWhile (\<lambda>g. g = 0) (drop i gs) = []" by (simp add: zero_run_def)
  moreover have "drop i gs = gs ! i # drop (Suc i) gs" using i by (simp add: Cons_nth_drop_Suc)
  ultimately show "g \<noteq> 0" using g by (auto split: if_splits)
qed


subsection \<open>The printed form of a host address\<close>

lemma print_u_length:
  assumes "n < 1000"
  shows "length (print_u n) \<le> 3"
proof -
  have a: "n div 10 < 100" using assms by simp
  have b: "n div 10 div 10 < 10" using assms by simp
  show ?thesis
    using a b
    by (simp add: print_u.simps [of n] print_u.simps [of "n div 10"]
        print_u.simps [of "n div 10 div 10"])
qed

lemma print_u_octet_length: "length (print_u (unat (b :: 8 word))) \<le> 3"
proof -
  have "unat b < 256" using unsigned_less [of b, where ?'a = nat] by simp
  then have "unat b < 1000" by simp
  then show ?thesis by (rule print_u_length)
qed

lemma groups16_texts: "map hex_text (groups16 bytes) = map (chunk bytes) [0 ..< 8]"
  unfolding groups16_def map_map comp_def chunk_def ..

lemma groups16_length: "length (groups16 bytes) = 8"
  by (simp add: groups16_def)

lemma groups16_take:
  assumes "p \<le> 8"
  shows "map hex_text (take p (groups16 bytes)) = map (chunk bytes) [0 ..< p]"
proof -
  have "map hex_text (take p (groups16 bytes)) = take p (map hex_text (groups16 bytes))"
    by (simp only: take_map)
  also have "\<dots> = take p (map (chunk bytes) [0 ..< 8])" by (simp only: groups16_texts)
  also have "\<dots> = map (chunk bytes) (take p [0 ..< 8])" by (simp only: take_map)
  also have "take p [0 ..< 8] = [0 ..< p]" using assms by (simp add: take_upt)
  finally show ?thesis .
qed

lemma groups16_drop:
  "map hex_text (drop q (groups16 bytes)) = map (chunk bytes) [q ..< 8]"
proof -
  have "map hex_text (drop q (groups16 bytes)) = drop q (map hex_text (groups16 bytes))"
    by (simp only: drop_map)
  also have "\<dots> = drop q (map (chunk bytes) [0 ..< 8])" by (simp only: groups16_texts)
  also have "\<dots> = map (chunk bytes) (drop q [0 ..< 8])" by (simp only: drop_map)
  also have "drop q [0 ..< 8] = [q ..< 8]" by (simp add: drop_upt)
  finally show ?thesis .
qed

lemma host_address_to_str_inet6:
  assumes "type a \<noteq> NETWORK_INET"
  shows "host_address_to_str a = Some (ipv6_text (groups16 (ip a)))"
proof (cases "longest_zero_run (groups16 (ip a))")
  case None
  have f: "find_zeroes (ip a) = (- 1, 0)"
    by (simp add: find_zeroes_longest None zero_run_code_def)
  show ?thesis
    using assms
    by (simp add: host_address_to_str_def f write_address_plain ipv6_text_def None
        groups16_texts)
next
  case (Some r)
  obtain p n where r: "r = (p, n)" by (cases r)
  have s: "longest_zero_run (groups16 (ip a)) = Some (p, n)" using Some r by simp
  have f: "find_zeroes (ip a) = (int p, int n)"
    by (simp add: find_zeroes_longest s zero_run_code_def)
  from longest_zero_run_Some [OF s] have n: "1 \<le> n" and pn: "p + n \<le> 8"
    by (simp_all add: groups16_length)
  have p: "p \<le> 8" using pn by simp
  have w: "write_address (ip a) (int p) (int n) 0 False ''['' =
     Some (''['' @ join '':'' (map (chunk (ip a)) [0 ..< p]) @ ''::'' @
           join '':'' (map (chunk (ip a)) [p + n ..< 8]))"
    by (rule write_address_compressed [OF n pn])
  show ?thesis
    using assms
    by (simp add: host_address_to_str_def f w ipv6_text_def s groups16_take [OF p]
        groups16_drop)
qed

lemma host_address_to_str_inet:
  assumes t: "type a = NETWORK_INET" and l: "4 \<le> length (ip a)"
  shows "host_address_to_str a = Some (ipv4_text (map unat (take 4 (ip a))))"
proof -
  obtain b0 b1 b2 b3 rest where i: "ip a = b0 # b1 # b2 # b3 # rest"
  proof -
    obtain b0 r0 where 0: "ip a = b0 # r0" using l by (cases "ip a") simp_all
    obtain b1 r1 where 1: "r0 = b1 # r1" using l 0 by (cases r0) simp_all
    obtain b2 r2 where 2: "r1 = b2 # r2" using l 0 1 by (cases r1) simp_all
    obtain b3 r3 where 3: "r2 = b3 # r3" using l 0 1 2 by (cases r2) simp_all
    show ?thesis using that 0 1 2 3 by simp
  qed
  let ?t = "print_u (unat b0) @ ''.'' @ print_u (unat b1) @ ''.'' @
            print_u (unat b2) @ ''.'' @ print_u (unat b3)"
  have "length ?t \<le> 15"
    using print_u_octet_length [of b0] print_u_octet_length [of b1]
      print_u_octet_length [of b2] print_u_octet_length [of b3] by simp
  then have s: "snprintf ADDRESS_MAX_LEN ?t = ?t"
    by (simp add: snprintf_def ADDRESS_MAX_LEN_def)
  have j: "ipv4_text (map unat (take 4 (ip a))) = ?t"
    by (simp add: ipv4_text_def i)
  have "host_address_to_str a = Some (snprintf ADDRESS_MAX_LEN ?t)"
    by (simp add: host_address_to_str_def t i)
  then show ?thesis by (simp only: s j)
qed

text \<open>
  Claim C5. \<open>host_address_to_str\<close> always comes to an end, and what it writes is the
  text that the spec prescribes: for an IPv6 address the eight groups between brackets,
  in lowercase hexadecimal without leading zeros, with \<open>::\<close> in the place of the longest
  run of zero groups (of length at least 1, the earliest of several longest runs); for
  an IPv4 address the dotted quad. The address buffer \<open>ip\<close> has its 16 bytes.
\<close>

theorem host_address_to_str_text:
  assumes "length (ip a) = 16"
  shows "host_address_to_str a = Some (spec_host_text a)"
proof (cases "type a = NETWORK_INET")
  case True
  have "4 \<le> length (ip a)" using assms by simp
  with True show ?thesis by (simp add: host_address_to_str_inet spec_host_text_def)
next
  case False
  then show ?thesis by (simp add: host_address_to_str_inet6 spec_host_text_def)
qed


theorem host_address_to_str_text_witness:
  "length (ip example_host6) = 16 \<and>
   host_address_to_str example_host6 = Some ''[2001:db8::a:0:1]'' \<and>
   length (ip example_host) = 16 \<and>
   host_address_to_str example_host = Some ''127.0.0.1''"
proof -
  have l6: "length (ip example_host6) = 16" by (simp add: example_host6_def)
  have l4: "length (ip example_host) = 16" by (simp add: example_host_def)
  have g: "groups16 (ip example_host6) = [0x2001, 0xdb8, 0, 0, 0, 0xa, 0, 1]"
    by (simp add: groups16_def example_host6_def upt_rec)
  have z: "longest_zero_run [0x2001, 0xdb8, 0, 0, 0, 0xa, 0, 1] = Some (2, 3)"
    by (simp add: longest_zero_run_def zero_run_def upt_rec Let_def)
  have h: "hex_text 0x2001 = ''2001''" "hex_text 0xdb8 = ''db8''" "hex_text 0xa = ''a''"
    "hex_text 0 = ''0''" "hex_text 1 = ''1''" "hex_text (Suc 0) = ''1''"
    by (simp_all add: hex_text.simps)
  have ty: "type example_host6 \<noteq> NETWORK_INET" by (simp add: example_host6_def)
  have t6: "spec_host_text example_host6 = ''[2001:db8::a:0:1]''"
  proof -
    have "spec_host_text example_host6 = ipv6_text (groups16 (ip example_host6))"
      by (simp add: spec_host_text_def ty)
    also have "\<dots> = ''[2001:db8::a:0:1]''"
      unfolding g ipv6_text_def z by (simp add: h)
    finally show ?thesis .
  qed
  have p: "print_u 127 = ''127''" "print_u 0 = ''0''" "print_u 1 = ''1''"
    "print_u (Suc 0) = ''1''"
    by (simp_all add: print_u.simps [of 127] print_u.simps [of 12] print_u.simps [of 1]
        print_u.simps [of "Suc 0"] print_u.simps [of 0] digit_char_def)
  have t4: "spec_host_text example_host = ''127.0.0.1''"
    by (simp add: spec_host_text_def example_host_def ipv4_text_def p)
  show ?thesis
    using host_address_to_str_text [OF l6] host_address_to_str_text [OF l4] l6 l4
    by (simp only: t6 t4 simp_thms)
qed

section \<open>Printing an address and reading it back\<close>

subsection \<open>Decimal numbers\<close>

lemma print_u_digits: "\<forall>c\<in>set (print_u n). dec_digit_value c \<noteq> None"
proof (induction n rule: print_u.induct)
  case (1 n)
  show ?case
  proof (cases "n < 10")
    case True
    then show ?thesis by (simp add: print_u.simps [of n] dec_digit_value_digit_char)
  next
    case False
    have "n mod 10 < 10" by simp
    then have "dec_digit_value (digit_char (n mod 10)) \<noteq> None"
      by (simp only: dec_digit_value_digit_char) simp
    with False 1 show ?thesis by (simp add: print_u.simps [of n])
  qed
qed

lemma print_u_first:
  "\<exists>c cs. print_u n = c # cs \<and> dec_digit_value c \<noteq> None"
proof -
  have "print_u n \<noteq> []" by (simp add: print_u.simps [of n])
  then obtain c cs where p: "print_u n = c # cs" by (cases "print_u n") simp_all
  with print_u_digits [of n] have "dec_digit_value c \<noteq> None" by simp
  with p show ?thesis by blast
qed

lemma print_u_length_pow: "n < 10 ^ Suc k \<Longrightarrow> length (print_u n) \<le> Suc k"
proof (induction k arbitrary: n)
  case 0
  then show ?case by (simp add: print_u.simps [of n])
next
  case (Suc k)
  show ?case
  proof (cases "n < 10")
    case True
    then show ?thesis by (simp add: print_u.simps [of n])
  next
    case False
    have "n < 10 ^ Suc k * 10" using Suc.prems by (simp add: mult.commute)
    then have "n div 10 < 10 ^ Suc k" by (simp only: div_less_iff_less_mult zero_less_numeral)
    from Suc.IH [OF this] False show ?thesis by (simp add: print_u.simps [of n])
  qed
qed

lemma decimal_value_snoc:
  "decimal_value acc (xs @ [c]) =
     (case decimal_value acc xs of
        None \<Rightarrow> None
      | Some v \<Rightarrow> (case dec_digit_value c of None \<Rightarrow> None | Some d \<Rightarrow> Some (v * 10 + d)))"
  by (induction xs arbitrary: acc) (auto split: option.splits)

lemma decimal_value_print_u: "decimal_value 0 (print_u n) = Some n"
proof (induction n rule: print_u.induct)
  case (1 n)
  show ?case
  proof (cases "n < 10")
    case True
    then show ?thesis by (simp add: print_u.simps [of n] dec_digit_value_digit_char)
  next
    case False
    have d: "dec_digit_value (digit_char (n mod 10)) = Some (n mod 10)"
      by (rule dec_digit_value_digit_char) simp
    have i: "decimal_value 0 (print_u (n div 10)) = Some (n div 10)" using 1 False by simp
    have "decimal_value 0 (print_u (n div 10) @ [digit_char (n mod 10)]) =
        Some (n div 10 * 10 + n mod 10)"
      by (simp only: decimal_value_snoc i d option.case)
    with False show ?thesis by (simp add: print_u.simps [of n])
  qed
qed

lemma digit_not_space: "dec_digit_value c \<noteq> None \<Longrightarrow> \<not> isspace c"
  by (auto simp: dec_digit_value_def isspace_def split: if_splits)

lemma digit_not_special:
  assumes "dec_digit_value c \<noteq> None"
  shows "c \<noteq> CHR ''['' \<and> c \<noteq> CHR '']'' \<and> c \<noteq> CHR '':'' \<and> c \<noteq> CHR ''.''"
  using assms by (auto simp: dec_digit_value_def)

subsection \<open>The port\<close>

lemma htons_ntohs: "htons (ntohs x) = x"
  unfolding htons_def ntohs_def
  by (rule bit_word_eqI) (auto simp: bit_simps)

lemma port_text:
  assumes "1 \<le> unat (ntohs p)"
  shows "snprintf 10 (CHR '':'' # print_u (unat (ntohs p))) = CHR '':'' # print_u (unat (ntohs p))"
    and "parse_long (print_u (unat (ntohs p))) = Some (int (unat (ntohs p)))"
    and "htons (word_of_int (int (unat (ntohs p)))) = p"
proof -
  let ?v = "unat (ntohs p)"
  have v: "?v < 65536" using unsigned_less [of "ntohs p", where ?'a = nat] by simp
  then have "?v < 10 ^ Suc 4" by simp
  then have "length (print_u ?v) \<le> Suc 4" by (rule print_u_length_pow)
  then show "snprintf 10 (CHR '':'' # print_u ?v) = CHR '':'' # print_u ?v"
    by (simp add: snprintf_def)
  have "print_u ?v \<noteq> []" using print_u_first [of ?v] by auto
  then show "parse_long (print_u ?v) = Some (int ?v)"
    using assms v by (simp add: parse_long_def decimal_value_print_u)
  show "htons (word_of_int (int ?v)) = p" by (simp add: htons_ntohs)
qed

subsection \<open>Splitting what was printed\<close>

lemma split_string_last:
  assumes "\<not> in_brackets l" and "d \<notin> set r"
  shows "split_string (l @ d # r) d = Some (l, r)"
proof -
  have "split_from (bracket_step (foldl bracket_step False l) d) r d = None"
    using assms(2) by (rule split_from_None)
  with assms(1) show ?thesis
    unfolding split_string_def in_brackets_def by (intro split_from_last)
qed

lemma no_bracket_state:
  "CHR ''['' \<notin> set s \<Longrightarrow> foldl bracket_step False s = False"
  by (induction s) (auto simp: bracket_step_def)

lemma in_brackets_closed: "\<not> in_brackets (s @ '']'')"
  by (simp add: in_brackets_def bracket_step_def)

subsection \<open>Reading back a dotted quad\<close>

lemma pton4_print:
  "n \<le> 255 \<Longrightarrow> k < 4 \<Longrightarrow>
     pton4_loop (print_u n @ rest) False k prev 0 = pton4_loop rest True (Suc k) prev n"
proof (induction n arbitrary: rest rule: print_u.induct)
  case (1 n)
  show ?case
  proof (cases "n < 10")
    case True
    then show ?thesis
      using 1(3) by (simp add: print_u.simps [of n] dec_digit_value_digit_char)
  next
    case False
    have d: "dec_digit_value (digit_char (n mod 10)) = Some (n mod 10)"
      by (rule dec_digit_value_digit_char) simp
    have n10: "n div 10 \<le> 255" using 1(2) by simp
    have nz: "n div 10 \<noteq> 0" using False by simp
    have s: "n div 10 * 10 + n mod 10 = n" by simp
    have "pton4_loop (print_u n @ rest) False k prev 0 =
        pton4_loop (print_u (n div 10) @ digit_char (n mod 10) # rest) False k prev 0"
      using False by (simp add: print_u.simps [of n])
    also have "\<dots> = pton4_loop (digit_char (n mod 10) # rest) True (Suc k) prev (n div 10)"
      using False n10 1(3) by (intro 1(1)) simp_all
    also have "\<dots> = pton4_loop rest True (Suc k) prev n"
      using nz 1(2) by (simp add: d s)
    finally show ?thesis .
  qed
qed

lemma pton4_dot:
  "k < 4 \<Longrightarrow>
     pton4_loop (CHR ''.'' # rest) True k prev n = pton4_loop rest False k (prev @ [of_nat n]) 0"
  by (simp add: dec_digit_value_def)

lemma inet_pton4_print:
  "inet_pton4 (print_u (unat (b0 :: 8 word)) @ ''.'' @ print_u (unat (b1 :: 8 word)) @ ''.'' @
               print_u (unat (b2 :: 8 word)) @ ''.'' @ print_u (unat (b3 :: 8 word))) =
     Some [b0, b1, b2, b3]"
proof -
  have u: "\<And>b :: 8 word. unat b \<le> 255"
  proof -
    fix b :: "8 word"
    have "unat b < 256" using unsigned_less [of b, where ?'a = nat] by simp
    then show "unat b \<le> 255" by simp
  qed
  have 0: "(0 :: nat) < 4" and 1: "Suc 0 < 4" and 2: "Suc (Suc 0) < 4"
    and 3: "Suc (Suc (Suc 0)) < 4" by simp_all
  have e: "\<And>prev. pton4_loop (print_u (unat b3)) False (Suc (Suc (Suc 0))) prev 0 =
      pton4_loop [] True (Suc (Suc (Suc (Suc 0)))) prev (unat b3)"
    using pton4_print [OF u 3, where rest = "[]"] by simp
  show ?thesis
    unfolding inet_pton4_def append_Cons append_Nil
      pton4_print [OF u 0] pton4_dot [OF 1]
      pton4_print [OF u 1] pton4_dot [OF 2]
      pton4_print [OF u 2] pton4_dot [OF 3] e
    by simp
qed

subsection \<open>Hexadecimal groups\<close>

lemma chunk_group: "chunk bytes i = hex_text (group_value bytes i)"
  by (simp add: chunk_def group_value_def)

lemma group_value_less: "group_value bytes i < 65536"
proof -
  have a: "unat (bytes ! (2 * i)) < 256"
    using unsigned_less [of "bytes ! (2 * i)", where ?'a = nat] by simp
  have b: "unat (bytes ! (2 * i + 1)) < 256"
    using unsigned_less [of "bytes ! (2 * i + 1)", where ?'a = nat] by simp
  show ?thesis using a b by (simp add: group_value_def)
qed

lemma hex_text_length: "g < 16 ^ Suc k \<Longrightarrow> length (hex_text g) \<le> Suc k"
proof (induction k arbitrary: g)
  case 0
  then show ?case by (simp add: hex_text.simps [of g])
next
  case (Suc k)
  show ?case
  proof (cases "g < 16")
    case True
    then show ?thesis by (simp add: hex_text.simps [of g])
  next
    case False
    have "g < 16 ^ Suc k * 16" using Suc.prems by (simp add: mult.commute)
    then have "g div 16 < 16 ^ Suc k" by (simp only: div_less_iff_less_mult zero_less_numeral)
    from Suc.IH [OF this] False show ?thesis by (simp add: hex_text.simps [of g])
  qed
qed

lemma hex_text_chars: "\<forall>c\<in>set (hex_text g). hex_digit_value c \<noteq> None"
proof (induction g rule: hex_text.induct)
  case (1 n)
  have d: "hex_digit_value (''0123456789abcdef'' ! (n mod 16)) \<noteq> None"
    by (simp only: hex_digit_value_lut [of "n mod 16"]) simp
  show ?case
  proof (cases "n < 16")
    case True
    then show ?thesis by (simp add: hex_text.simps [of n] hex_digit_value_lut del: nth_Cons_numeral)
  next
    case False
    with 1 d show ?thesis by (simp add: hex_text.simps [of n] del: nth_Cons_numeral)
  qed
qed

lemma hex_text_first: "\<exists>c cs. hex_text g = c # cs \<and> hex_digit_value c \<noteq> None"
proof -
  have "hex_text g \<noteq> []" by (simp add: hex_text.simps [of g])
  then obtain c cs where p: "hex_text g = c # cs" by (cases "hex_text g") simp_all
  with hex_text_chars [of g] have "hex_digit_value c \<noteq> None" by simp
  with p show ?thesis by blast
qed

lemma hex_not_special:
  assumes "hex_digit_value c \<noteq> None"
  shows "c \<noteq> CHR ''['' \<and> c \<noteq> CHR '']'' \<and> c \<noteq> CHR '':'' \<and> c \<noteq> CHR ''.''"
  using assms by (auto simp: hex_digit_value_def Let_def)

subsection \<open>Steps of the loop of \<open>inet_pton6\<close>\<close>

lemma pton6_digit:
  "hex_digit_value ch = Some d \<Longrightarrow> x \<noteq> 4 \<Longrightarrow> v * 16 + d \<le> 65535 \<Longrightarrow>
     pton6_loop ct (ch # src) tp cp x v = pton6_loop ct src tp cp (Suc x) (v * 16 + d)"
  by simp

lemma pton6_colon_first:
  "pton6_loop ct (CHR '':'' # src) tp None 0 v = pton6_loop src src tp (Some (length tp)) 0 v"
  by (simp add: hex_digit_value_def Let_def)

lemma pton6_colon_next:
  "0 < x \<Longrightarrow> src \<noteq> [] \<Longrightarrow> length tp + 2 \<le> 16 \<Longrightarrow>
     pton6_loop ct (CHR '':'' # src) tp cp x v = pton6_loop src src (store16 tp v) cp 0 0"
  by (simp add: hex_digit_value_def Let_def)

lemma pton6_curtok:
  "CHR ''.'' \<notin> set src \<Longrightarrow>
     pton6_loop ct src tp cp x v = pton6_loop ct' src tp cp x v"
proof (induction src arbitrary: tp cp x v)
  case Nil
  show ?case by simp
next
  case (Cons ch src)
  have n: "CHR ''.'' \<notin> set src" and c: "ch \<noteq> CHR ''.''" using Cons.prems by auto
  show ?case
  proof (cases "hex_digit_value ch")
    case None
    then show ?thesis using c by simp
  next
    case (Some d)
    then show ?thesis using Cons.IH [OF n] by simp
  qed
qed

lemma pton6_hex:
  "g < 65536 \<Longrightarrow>
     pton6_loop ct (hex_text g @ rest) tp cp 0 0 =
     pton6_loop ct rest tp cp (length (hex_text g)) g"
proof (induction g arbitrary: rest rule: hex_text.induct)
  case (1 n)
  show ?case
  proof (cases "n < 16")
    case True
    have d: "hex_digit_value (''0123456789abcdef'' ! n) = Some n"
      using True by (rule hex_digit_value_lut)
    have t: "hex_text n = [''0123456789abcdef'' ! n]"
      using True by (simp add: hex_text.simps [of n])
    have "pton6_loop ct ((''0123456789abcdef'' ! n) # rest) tp cp 0 0 =
        pton6_loop ct rest tp cp (Suc 0) (0 * 16 + n)"
      using d True by (intro pton6_digit) simp_all
    then show ?thesis unfolding t by simp
  next
    case False
    let ?c = "''0123456789abcdef'' ! (n mod 16)"
    have d: "hex_digit_value ?c = Some (n mod 16)"
      by (rule hex_digit_value_lut) simp
    have t: "hex_text n = hex_text (n div 16) @ [?c]"
      using False by (subst hex_text.simps) simp
    have s: "n div 16 < 65536" using 1(2) by simp
    have "n div 16 < 16 ^ Suc 2" using 1(2) by simp
    then have l: "length (hex_text (n div 16)) \<le> Suc 2" by (rule hex_text_length)
    have v: "n div 16 * 16 + n mod 16 = n" by simp
    have x4: "length (hex_text (n div 16)) \<noteq> 4" using l by simp
    have le: "n div 16 * 16 + n mod 16 \<le> 65535" unfolding v using 1(2) by simp
    have "pton6_loop ct (hex_text n @ rest) tp cp 0 0 =
        pton6_loop ct (hex_text (n div 16) @ ?c # rest) tp cp 0 0"
      unfolding t by simp
    also have "\<dots> = pton6_loop ct (?c # rest) tp cp (length (hex_text (n div 16))) (n div 16)"
      using False s by (intro 1(1)) simp_all
    also have "\<dots> = pton6_loop ct rest tp cp (Suc (length (hex_text (n div 16))))
        (n div 16 * 16 + n mod 16)"
      by (rule pton6_digit [OF d x4 le])
    also have "\<dots> = pton6_loop ct rest tp cp (length (hex_text n)) n"
      unfolding t v by simp
    finally show ?thesis .
  qed
qed

subsection \<open>The bytes of a run of groups\<close>

lemma group_bytes_empty: "group_bytes bytes i i = []"
  by (simp add: group_bytes_def)

lemma group_bytes_snoc:
  "i \<le> j \<Longrightarrow>
     group_bytes bytes i (Suc j) = group_bytes bytes i j @ [bytes ! (2 * j), bytes ! (2 * j + 1)]"
  by (simp add: group_bytes_def)

lemma group_bytes_length: "i \<le> j \<Longrightarrow> length (group_bytes bytes i j) = 2 * (j - i)"
proof (induction j rule: dec_induct)
  case base
  show ?case by (simp add: group_bytes_empty)
next
  case (step j)
  then show ?case by (simp add: group_bytes_snoc Suc_diff_le)
qed

lemma group_bytes_append:
  assumes "i \<le> j" and "j \<le> k"
  shows "group_bytes bytes i j @ group_bytes bytes j k = group_bytes bytes i k"
  using assms(2)
proof (induction k rule: dec_induct)
  case base
  show ?case by (simp add: group_bytes_empty)
next
  case (step k)
  have ik: "i \<le> k" using step assms(1) by simp
  have jk: "j \<le> k" using step by simp
  show ?case
    using step by (simp add: group_bytes_snoc [OF ik] group_bytes_snoc [OF jk])
qed

lemma group_bytes_take:
  "2 * j \<le> length bytes \<Longrightarrow> group_bytes bytes 0 j = take (2 * j) bytes"
proof (induction j)
  case 0
  show ?case by (simp add: group_bytes_empty)
next
  case (Suc j)
  have a: "2 * j < length bytes" and b: "Suc (2 * j) < length bytes" using Suc.prems by simp_all
  have "take (2 * Suc j) bytes = take (Suc (Suc (2 * j))) bytes" by simp
  also have "\<dots> = take (Suc (2 * j)) bytes @ [bytes ! Suc (2 * j)]"
    using b by (rule take_Suc_conv_app_nth)
  also have "take (Suc (2 * j)) bytes = take (2 * j) bytes @ [bytes ! (2 * j)]"
    using a by (rule take_Suc_conv_app_nth)
  finally have "take (2 * Suc j) bytes = take (2 * j) bytes @ [bytes ! (2 * j), bytes ! Suc (2 * j)]"
    by simp
  moreover have "group_bytes bytes 0 j = take (2 * j) bytes" using Suc by simp
  ultimately show ?case by (simp add: group_bytes_snoc)
qed

lemma group_bytes_all: "length bytes = 16 \<Longrightarrow> group_bytes bytes 0 8 = bytes"
  using group_bytes_take [of 8 bytes] by simp

lemma group_bytes_zero:
  "\<forall>k<n. group_value bytes (p + k) = 0 \<Longrightarrow> group_bytes bytes p (p + n) = replicate (2 * n) 0"
proof (induction n)
  case 0
  show ?case by (simp add: group_bytes_empty)
next
  case (Suc n)
  have "group_value bytes (p + n) = 0" using Suc.prems by simp
  then have z: "bytes ! (2 * (p + n)) = 0" "bytes ! (2 * (p + n) + 1) = 0"
    by (simp_all add: group_value_def unat_eq_0)
  have i: "group_bytes bytes p (p + n) = replicate (2 * n) 0" using Suc by simp
  have "group_bytes bytes p (p + Suc n) = group_bytes bytes p (p + n) @ [0, 0]"
    using group_bytes_snoc [of p "p + n" bytes] z by simp
  also have "\<dots> = replicate (2 * n) 0 @ replicate 2 0"
    unfolding i by (simp add: numeral_2_eq_2)
  also have "\<dots> = replicate (2 * Suc n) 0"
    by (simp only: replicate_add [symmetric]) simp
  finally show ?case .
qed

lemma store16_group_value:
  "store16 tp (group_value bytes i) = tp @ [bytes ! (2 * i), bytes ! (2 * i + 1)]"
  unfolding group_value_def by (rule store16_group)

subsection \<open>The characters of the text of an address\<close>

lemma join_chars: "set (join sep xs) \<subseteq> set sep \<union> \<Union> (set ` set xs)"
  by (induction sep xs rule: join.induct) auto

lemma chunk_chars:
  assumes "c \<in> set (chunk bytes i)"
  shows "hex_digit_value c \<noteq> None"
  using assms hex_text_chars by (simp add: chunk_group)

lemma chunks_chars:
  assumes "c \<in> set (join '':'' (map (chunk bytes) is))"
  shows "c = CHR '':'' \<or> hex_digit_value c \<noteq> None"
proof -
  from assms join_chars [of "'':''" "map (chunk bytes) is"]
  have "c \<in> set '':'' \<union> \<Union> (set ` set (map (chunk bytes) is))" by blast
  then show ?thesis using chunk_chars by auto
qed

lemma chunks_no_dot: "CHR ''.'' \<notin> set (join '':'' (map (chunk bytes) is))"
  using chunks_chars [of "CHR ''.''" bytes "is"] hex_not_special [of "CHR ''.''"] by auto

lemma chunks_no_bracket: "CHR ''['' \<notin> set (join '':'' (map (chunk bytes) is))"
  using chunks_chars [of "CHR ''[''" bytes "is"] hex_not_special [of "CHR ''[''"] by auto

lemma chunk_no_dot: "CHR ''.'' \<notin> set (chunk bytes i)"
  using chunk_chars [of "CHR ''.''" bytes i] hex_not_special [of "CHR ''.''"] by auto

lemma chunk_first: "\<exists>c cs. chunk bytes i = c # cs \<and> c \<noteq> CHR '':''"
  using hex_text_first [of "group_value bytes i"] hex_not_special
  by (auto simp: chunk_group)

lemma join_first: "\<exists>r. join sep ((c # cs) # ys) = c # r"
  by (cases ys) simp_all

lemma chunks_first:
  assumes "i < j"
  shows "\<exists>c cs. join '':'' (map (chunk bytes) [i ..< j]) = c # cs \<and> c \<noteq> CHR '':''"
proof -
  obtain c cs where c: "chunk bytes i = c # cs" "c \<noteq> CHR '':''" using chunk_first by blast
  have u: "[i ..< j] = i # [Suc i ..< j]" using assms by (rule upt_conv_Cons)
  have "map (chunk bytes) [i ..< j] = (c # cs) # map (chunk bytes) [Suc i ..< j]"
    unfolding u list.map c ..
  then obtain r where "join '':'' (map (chunk bytes) [i ..< j]) = c # r"
    using join_first [of "'':''" c cs "map (chunk bytes) [Suc i ..< j]"] by auto
  with c show ?thesis by blast
qed

subsection \<open>Reading back the groups of an IPv6 address\<close>

lemma pton6_chunk:
  assumes "CHR ''.'' \<notin> set rest"
  shows "pton6_loop ct (chunk bytes i @ rest) tp cp 0 0 =
     pton6_loop ct' rest tp cp (length (chunk bytes i)) (group_value bytes i)"
proof -
  have "pton6_loop ct (chunk bytes i @ rest) tp cp 0 0 =
      pton6_loop ct rest tp cp (length (chunk bytes i)) (group_value bytes i)"
    unfolding chunk_group using group_value_less by (rule pton6_hex)
  also have "\<dots> = pton6_loop ct' rest tp cp (length (chunk bytes i)) (group_value bytes i)"
    using assms by (rule pton6_curtok)
  finally show ?thesis .
qed

lemma chunk_length_pos: "0 < length (chunk bytes i)"
  using chunk_first [of bytes i] by auto

lemma pton6_chunks:
  assumes "i \<le> m"
  shows "CHR ''.'' \<notin> set rest \<Longrightarrow> length tp + 2 * (Suc m - i) \<le> 16 \<Longrightarrow>
     pton6_loop ct (join '':'' (map (chunk bytes) [i ..< Suc m]) @ rest) tp cp 0 0 =
     pton6_loop ct' rest (tp @ group_bytes bytes i m) cp
       (length (chunk bytes m)) (group_value bytes m)"
  using assms
proof (induction m arbitrary: ct ct' rest rule: dec_induct)
  case base
  have u: "[i ..< Suc i] = [i]" by simp
  show ?case
    unfolding u list.map join.simps group_bytes_empty append_Nil2
    using base(1) by (rule pton6_chunk)
next
  case (step m)
  let ?rest = "CHR '':'' # chunk bytes (Suc m) @ rest"
  let ?tp = "tp @ group_bytes bytes i m"
  have im: "i \<le> m" using step by simp
  have ne: "map (chunk bytes) [i ..< Suc m] \<noteq> []" using im by simp
  have t: "join '':'' (map (chunk bytes) [i ..< Suc (Suc m)]) @ rest =
      join '':'' (map (chunk bytes) [i ..< Suc m]) @ ?rest"
  proof -
    have "[i ..< Suc (Suc m)] = [i ..< Suc m] @ [Suc m]" using im by simp
    then have "map (chunk bytes) [i ..< Suc (Suc m)] =
        map (chunk bytes) [i ..< Suc m] @ [chunk bytes (Suc m)]" by simp
    then show ?thesis using ne by (simp only: join_snoc) simp
  qed
  have d: "CHR ''.'' \<notin> set ?rest" using step(4) chunk_no_dot [of bytes "Suc m"] by simp
  have l: "length tp + 2 * (Suc m - i) \<le> 16" using step(5) im by simp
  have l2: "length ?tp + 2 \<le> 16"
    using step(5) im by (simp add: group_bytes_length)
  have c: "chunk bytes (Suc m) @ rest \<noteq> []" using chunk_length_pos [of bytes "Suc m"] by auto
  have s: "store16 ?tp (group_value bytes m) = tp @ group_bytes bytes i (Suc m)"
    by (simp add: store16_group_value group_bytes_snoc [OF im])
  have "pton6_loop ct (join '':'' (map (chunk bytes) [i ..< Suc (Suc m)]) @ rest) tp cp 0 0 =
      pton6_loop ct (join '':'' (map (chunk bytes) [i ..< Suc m]) @ ?rest) tp cp 0 0"
    by (simp only: t)
  also have "\<dots> = pton6_loop ct ?rest ?tp cp (length (chunk bytes m)) (group_value bytes m)"
    using d l by (rule step(3))
  also have "\<dots> = pton6_loop (chunk bytes (Suc m) @ rest) (chunk bytes (Suc m) @ rest)
      (store16 ?tp (group_value bytes m)) cp 0 0"
    using chunk_length_pos c l2 by (rule pton6_colon_next)
  also have "\<dots> = pton6_loop ct' rest (tp @ group_bytes bytes i (Suc m)) cp
      (length (chunk bytes (Suc m))) (group_value bytes (Suc m))"
    unfolding s using step(4) by (rule pton6_chunk)
  finally show ?case .
qed

lemma pton6_to_end:
  assumes i: "i < 8" and l: "length tp + 2 * (8 - i) \<le> 16"
  shows "pton6_loop ct (join '':'' (map (chunk bytes) [i ..< 8])) tp cp 0 0 =
     (case cp of
        None \<Rightarrow>
          if length (tp @ group_bytes bytes i 8) \<noteq> 16 then None
          else Some (tp @ group_bytes bytes i 8)
      | Some c \<Rightarrow>
          if length (tp @ group_bytes bytes i 8) = 16 then None
          else Some (take c (tp @ group_bytes bytes i 8) @
                     replicate (16 - length (tp @ group_bytes bytes i 8)) 0 @
                     drop c (tp @ group_bytes bytes i 8)))"
proof -
  have i7: "i \<le> 7" using i by simp
  have e: "(8 :: nat) = Suc 7" by simp
  have l7: "length tp + 2 * (Suc 7 - i) \<le> 16" using l by simp
  have nd: "CHR ''.'' \<notin> set []" by simp
  have x: "0 < length (chunk bytes 7)" by (rule chunk_length_pos)
  have f: "\<not> length (tp @ group_bytes bytes i 7) + 2 > 16"
    using l i7 by (simp add: group_bytes_length)
  have s: "store16 (tp @ group_bytes bytes i 7) (group_value bytes 7) =
      tp @ group_bytes bytes i 8"
    using group_bytes_snoc [OF i7, of bytes] by (simp add: store16_group_value)
  have "pton6_loop ct (join '':'' (map (chunk bytes) [i ..< Suc 7]) @ []) tp cp 0 0 =
      pton6_loop [] [] (tp @ group_bytes bytes i 7) cp
        (length (chunk bytes 7)) (group_value bytes 7)"
    using i7 nd l7 by (rule pton6_chunks)
  also have "\<dots> = pton6_finish (tp @ group_bytes bytes i 7) cp
        (length (chunk bytes 7)) (group_value bytes 7)"
    by simp
  also have "\<dots> =
     (case cp of
        None \<Rightarrow>
          if length (tp @ group_bytes bytes i 8) \<noteq> 16 then None
          else Some (tp @ group_bytes bytes i 8)
      | Some c \<Rightarrow>
          if length (tp @ group_bytes bytes i 8) = 16 then None
          else Some (take c (tp @ group_bytes bytes i 8) @
                     replicate (16 - length (tp @ group_bytes bytes i 8)) 0 @
                     drop c (tp @ group_bytes bytes i 8)))"
    unfolding pton6_finish_def using x f by (simp only: s Let_def simp_thms if_True if_False)
  finally show ?thesis unfolding e by simp
qed

lemma inet_pton6_start:
  assumes "src = c # cs" and "c \<noteq> CHR '':''"
  shows "inet_pton6 src = pton6_loop src src [] None 0 0"
  using assms by (simp add: inet_pton6_def)

lemma inet_pton6_plain:
  assumes "length bytes = 16"
  shows "inet_pton6 (join '':'' (map (chunk bytes) [0 ..< 8])) = Some bytes"
proof -
  let ?t = "join '':'' (map (chunk bytes) [0 ..< 8])"
  obtain c cs where t: "?t = c # cs" and c: "c \<noteq> CHR '':''"
    using chunks_first [of 0 8 bytes] by auto
  have 0: "(0 :: nat) < 8" by simp
  have l: "length ([] :: 8 word list) + 2 * (8 - 0) \<le> 16" by simp
  have g: "group_bytes bytes 0 8 = bytes" using assms by (rule group_bytes_all)
  have "inet_pton6 ?t = pton6_loop ?t ?t [] None 0 0" using t c by (rule inet_pton6_start)
  also have "\<dots> = Some bytes"
    unfolding pton6_to_end [OF 0 l] using assms by (simp add: g)
  finally show ?thesis .
qed

lemma pton6_tail:
  assumes n: "1 \<le> n" and pn: "p + n \<le> 8"
  shows "pton6_loop ct (join '':'' (map (chunk bytes) [p + n ..< 8]))
       (group_bytes bytes 0 p) (Some (2 * p)) 0 0 =
     Some (group_bytes bytes 0 p @ replicate (2 * n) 0 @ group_bytes bytes (p + n) 8)"
proof (cases "p + n = 8")
  case True
  have lp: "length (group_bytes bytes 0 p) = 2 * p" by (simp add: group_bytes_length)
  have ne: "2 * p \<noteq> 16" using True n by simp
  have r: "16 - 2 * p = 2 * n" using True by simp
  show ?thesis
    using ne by (simp add: True group_bytes_empty pton6_finish_def lp r)
next
  case False
  then have i: "p + n < 8" using pn by simp
  have lp: "length (group_bytes bytes 0 p) = 2 * p" by (simp add: group_bytes_length)
  have lq: "length (group_bytes bytes (p + n) 8) = 2 * (8 - (p + n))"
    using pn by (simp add: group_bytes_length)
  have l: "length (group_bytes bytes 0 p) + 2 * (8 - (p + n)) \<le> 16"
    unfolding lp using pn by simp
  have ne: "2 * p + 2 * (8 - (p + n)) \<noteq> 16" using n pn by simp
  have r: "16 - (2 * p + 2 * (8 - (p + n))) = 2 * n" using n pn by simp
  show ?thesis
    unfolding pton6_to_end [OF i l] using ne by (simp add: lp lq r)
qed

lemma inet_pton6_compressed:
  assumes n: "1 \<le> n" and pn: "p + n \<le> 8" and len: "length bytes = 16"
    and z: "\<forall>k<n. group_value bytes (p + k) = 0"
  shows "inet_pton6 (join '':'' (map (chunk bytes) [0 ..< p]) @ ''::'' @
                     join '':'' (map (chunk bytes) [p + n ..< 8])) = Some bytes"
proof -
  let ?A = "join '':'' (map (chunk bytes) [0 ..< p])"
  let ?B = "join '':'' (map (chunk bytes) [p + n ..< 8])"
  have b: "group_bytes bytes 0 p @ replicate (2 * n) 0 @ group_bytes bytes (p + n) 8 = bytes"
  proof -
    have "replicate (2 * n) 0 = group_bytes bytes p (p + n)"
      using z by (rule group_bytes_zero [symmetric])
    then have "group_bytes bytes 0 p @ replicate (2 * n) 0 @ group_bytes bytes (p + n) 8 =
        group_bytes bytes 0 p @ group_bytes bytes p (p + n) @ group_bytes bytes (p + n) 8"
      by simp
    also have "\<dots> = group_bytes bytes 0 p @ group_bytes bytes p 8"
      using pn by (simp add: group_bytes_append)
    also have "\<dots> = group_bytes bytes 0 8"
      using pn by (simp add: group_bytes_append)
    also have "\<dots> = bytes" using len by (rule group_bytes_all)
    finally show ?thesis .
  qed
  have tail: "\<And>ct. pton6_loop ct ?B (group_bytes bytes 0 p) (Some (2 * p)) 0 0 = Some bytes"
    using pton6_tail [OF n pn] b by simp
  show ?thesis
  proof (cases "p = 0")
    case True
    have "inet_pton6 (''::'' @ ?B) = pton6_loop (CHR '':'' # ?B) (CHR '':'' # ?B) [] None 0 0"
      by (simp add: inet_pton6_def)
    also have "\<dots> = pton6_loop ?B ?B [] (Some (length ([] :: 8 word list))) 0 0"
      by (rule pton6_colon_first)
    also have "\<dots> = Some bytes"
      using tail [of ?B] by (simp add: True group_bytes_empty)
    finally show ?thesis by (simp add: True)
  next
    case False
    then obtain m where m: "p = Suc m" by (cases p) simp_all
    let ?t = "?A @ ''::'' @ ?B"
    obtain c cs where a: "?A = c # cs" and c: "c \<noteq> CHR '':''"
      using chunks_first [of 0 p bytes] False by auto
    have t: "?t = c # (cs @ ''::'' @ ?B)" using a by simp
    have nd: "CHR ''.'' \<notin> set (''::'' @ ?B)" using chunks_no_dot [of bytes "[p + n ..< 8]"] by simp
    have 0: "0 \<le> m" by simp
    have l: "length ([] :: 8 word list) + 2 * (Suc m - 0) \<le> 16" using pn m by simp
    have l2: "length ([] @ group_bytes bytes 0 m) + 2 \<le> 16"
      using pn m by (simp add: group_bytes_length)
    have s: "store16 ([] @ group_bytes bytes 0 m) (group_value bytes m) = group_bytes bytes 0 p"
      by (simp add: store16_group_value group_bytes_snoc m)
    have lp: "length (group_bytes bytes 0 p) = 2 * p" by (simp add: group_bytes_length)
    have "inet_pton6 ?t = pton6_loop ?t ?t [] None 0 0" using t c by (rule inet_pton6_start)
    also have "\<dots> = pton6_loop [] (''::'' @ ?B) ([] @ group_bytes bytes 0 m) None
        (length (chunk bytes m)) (group_value bytes m)"
    proof -
      have "pton6_loop ?t (join '':'' (map (chunk bytes) [0 ..< Suc m]) @ ''::'' @ ?B) [] None 0 0 =
          pton6_loop [] (''::'' @ ?B) ([] @ group_bytes bytes 0 m) None
            (length (chunk bytes m)) (group_value bytes m)"
        using 0 nd l by (rule pton6_chunks)
      then show ?thesis by (simp only: m)
    qed
    also have "\<dots> = pton6_loop (CHR '':'' # ?B) (CHR '':'' # ?B)
        (store16 ([] @ group_bytes bytes 0 m) (group_value bytes m)) None 0 0"
      unfolding append_Cons append_Nil
      using chunk_length_pos [of bytes m] l2 by (intro pton6_colon_next) simp_all
    also have "\<dots> = pton6_loop ?B ?B (group_bytes bytes 0 p)
        (Some (length (group_bytes bytes 0 p))) 0 0"
      unfolding s by (rule pton6_colon_first)
    also have "\<dots> = Some bytes" unfolding lp by (rule tail)
    finally show ?thesis .
  qed
qed

subsection \<open>Host addresses\<close>

lemma groups16_nth: "i < 8 \<Longrightarrow> groups16 bytes ! i = group_value bytes i"
  by (simp add: groups16_def group_value_def)

lemma ipv6_body_read:
  assumes len: "length bytes = 16"
  shows "\<exists>body. ipv6_text (groups16 bytes) = ''['' @ body @ '']'' \<and>
           inet_pton6 body = Some bytes \<and> CHR ''['' \<notin> set body"
proof (cases "longest_zero_run (groups16 bytes)")
  case None
  let ?body = "join '':'' (map (chunk bytes) [0 ..< 8])"
  have "ipv6_text (groups16 bytes) = ''['' @ ?body @ '']''"
    by (simp add: ipv6_text_def None groups16_texts)
  moreover have "inet_pton6 ?body = Some bytes" using len by (rule inet_pton6_plain)
  moreover have "CHR ''['' \<notin> set ?body" by (rule chunks_no_bracket)
  ultimately show ?thesis by blast
next
  case (Some r)
  obtain p n where r: "r = (p, n)" by (cases r)
  have s: "longest_zero_run (groups16 bytes) = Some (p, n)" using Some r by simp
  from longest_zero_run_Some [OF s] have n: "1 \<le> n" and pn: "p + n \<le> 8"
    and z: "\<forall>k<n. groups16 bytes ! (p + k) = 0"
    by (simp_all add: groups16_length)
  have z': "\<forall>k<n. group_value bytes (p + k) = 0"
  proof (intro allI impI)
    fix k assume k: "k < n"
    then have "p + k < 8" using pn by simp
    then have "groups16 bytes ! (p + k) = group_value bytes (p + k)" by (rule groups16_nth)
    with z k show "group_value bytes (p + k) = 0" by simp
  qed
  have p: "p \<le> 8" using pn by simp
  let ?body = "join '':'' (map (chunk bytes) [0 ..< p]) @ ''::'' @
               join '':'' (map (chunk bytes) [p + n ..< 8])"
  have "ipv6_text (groups16 bytes) = ''['' @ ?body @ '']''"
    by (simp add: ipv6_text_def s groups16_take [OF p] groups16_drop)
  moreover have "inet_pton6 ?body = Some bytes"
    using n pn len z' by (rule inet_pton6_compressed)
  moreover have "CHR ''['' \<notin> set ?body"
    using chunks_no_bracket [of bytes "[0 ..< p]"] chunks_no_bracket [of bytes "[p + n ..< 8]"]
    by simp
  ultimately show ?thesis by blast
qed

lemma host_address_read_inet6:
  assumes t: "type h = NETWORK_INET6" and len: "length (ip h) = 16"
  shows "\<exists>text. host_address_to_str h = Some text \<and>
           host_address_from_str text out = (STATUS_SUCCESS, h) \<and> \<not> in_brackets text"
proof -
  obtain body where b: "ipv6_text (groups16 (ip h)) = ''['' @ body @ '']''"
    and i: "inet_pton6 body = Some (ip h)" and nb: "CHR ''['' \<notin> set body"
    using ipv6_body_read [OF len] by blast
  let ?text = "''['' @ body @ '']''"
  have ni: "type h \<noteq> NETWORK_INET" using t by simp
  have 1: "host_address_to_str h = Some ?text"
    using host_address_to_str_inet6 [OF ni] b by simp
  have "\<not> in_brackets body" using nb by (simp add: in_brackets_def no_bracket_state)
  moreover have "CHR '']'' \<notin> set []" by simp
  ultimately have sp: "split_string (body @ CHR '']'' # []) CHR '']'' = Some (body, [])"
    by (rule split_string_last)
  have h: "\<lparr>type = NETWORK_INET6, ip = ip h\<rparr> = h" using t by simp
  have 2: "host_address_from_str ?text out = (STATUS_SUCCESS, h)"
    using sp by (simp add: host_address_from_str_def isspace_def i h)
  have 3: "\<not> in_brackets ?text"
    using in_brackets_closed [of "''['' @ body"] by simp
  show ?thesis using 1 2 3 by blast
qed

lemma print_u_plain: "CHR ''['' \<notin> set (print_u n)" "CHR '':'' \<notin> set (print_u n)"
proof -
  show "CHR ''['' \<notin> set (print_u n)"
  proof
    assume "CHR ''['' \<in> set (print_u n)"
    with print_u_digits [of n] have "dec_digit_value CHR ''['' \<noteq> None" by blast
    then show False by (simp add: dec_digit_value_def)
  qed
  show "CHR '':'' \<notin> set (print_u n)"
  proof
    assume "CHR '':'' \<in> set (print_u n)"
    with print_u_digits [of n] have "dec_digit_value CHR '':'' \<noteq> None" by blast
    then show False by (simp add: dec_digit_value_def)
  qed
qed

lemma host_address_from_str_quad:
  assumes "text = c # cs" and "\<not> isspace c" and "c \<noteq> CHR ''[''"
    and "inet_pton4 text = Some quad"
  shows "host_address_from_str text out =
     (STATUS_SUCCESS, \<lparr>type = NETWORK_INET, ip = quad @ drop (length quad) zeroed_ip\<rparr>)"
  using assms by (simp add: host_address_from_str_def)

lemma host_address_read_inet:
  assumes t: "type h = NETWORK_INET" and len: "length (ip h) = 16"
    and pad: "drop 4 (ip h) = drop 4 zeroed_ip"
  shows "\<exists>text. host_address_to_str h = Some text \<and>
           host_address_from_str text out = (STATUS_SUCCESS, h) \<and> \<not> in_brackets text"
proof -
  obtain b0 b1 b2 b3 rest where i: "ip h = b0 # b1 # b2 # b3 # rest"
  proof -
    obtain b0 r0 where 0: "ip h = b0 # r0" using len by (cases "ip h") simp_all
    obtain b1 r1 where 1: "r0 = b1 # r1" using len 0 by (cases r0) simp_all
    obtain b2 r2 where 2: "r1 = b2 # r2" using len 0 1 by (cases r1) simp_all
    obtain b3 r3 where 3: "r2 = b3 # r3" using len 0 1 2 by (cases r2) simp_all
    show ?thesis using that 0 1 2 3 by simp
  qed
  let ?text = "print_u (unat b0) @ ''.'' @ print_u (unat b1) @ ''.'' @
               print_u (unat b2) @ ''.'' @ print_u (unat b3)"
  have l4: "4 \<le> length (ip h)" using len by simp
  have 1: "host_address_to_str h = Some ?text"
    using host_address_to_str_inet [OF t l4] by (simp add: ipv4_text_def i)
  obtain c cs where c: "print_u (unat b0) = c # cs" and d: "dec_digit_value c \<noteq> None"
    using print_u_first by blast
  have sp: "\<not> isspace c" using d by (rule digit_not_space)
  have br: "c \<noteq> CHR ''[''" using digit_not_special [OF d] by simp
  have q: "inet_pton4 ?text = Some [b0, b1, b2, b3]" by (rule inet_pton4_print)
  have rest: "rest = drop 4 zeroed_ip" using pad i by simp
  have "h = \<lparr>type = type h, ip = ip h\<rparr>" by simp
  then have e: "h = \<lparr>type = NETWORK_INET, ip = b0 # b1 # b2 # b3 # drop 4 zeroed_ip\<rparr>"
    unfolding t i rest .
  have four: "length [b0, b1, b2, b3] = 4" by simp
  have tx: "?text = c # (cs @ ''.'' @ print_u (unat b1) @ ''.'' @
               print_u (unat b2) @ ''.'' @ print_u (unat b3))"
    using c by simp
  have "host_address_from_str ?text out =
      (STATUS_SUCCESS,
       \<lparr>type = NETWORK_INET, ip = [b0, b1, b2, b3] @ drop (length [b0, b1, b2, b3]) zeroed_ip\<rparr>)"
    using tx sp br q by (rule host_address_from_str_quad)
  also have "[b0, b1, b2, b3] @ drop (length [b0, b1, b2, b3]) zeroed_ip =
      b0 # b1 # b2 # b3 # drop 4 zeroed_ip"
    by (simp only: four append_Cons append_Nil)
  finally have 2: "host_address_from_str ?text out = (STATUS_SUCCESS, h)"
    by (simp only: e [symmetric])
  have nb: "CHR ''['' \<notin> set ?text"
    by (simp add: print_u_plain)
  have "foldl bracket_step False ?text = False" using nb by (rule no_bracket_state)
  then have 3: "\<not> in_brackets ?text" unfolding in_brackets_def by (simp only: simp_thms)
  show ?thesis using 1 2 3 by blast
qed

lemma type_cases: "type h = NETWORK_INET \<or> type h = NETWORK_INET6"
  by (cases "type h") simp_all

lemma host_address_read:
  assumes "well_formed_host h"
  shows "\<exists>text. host_address_to_str h = Some text \<and>
           host_address_from_str text out = (STATUS_SUCCESS, h) \<and> \<not> in_brackets text"
  using assms type_cases [of h] host_address_read_inet [of h out] host_address_read_inet6 [of h out]
  unfolding well_formed_host_def by blast

text \<open>
  Claim C4. For every well-formed socket address whose port lies in 1..65535,
  \<open>socket_address_to_str\<close> returns, and \<open>socket_address_from_str\<close> on the text it
  has written succeeds and delivers the address that was printed. The port of an address
  is kept in network byte order, so its value is \<open>ntohs\<close> of the field.
\<close>

theorem socket_address_round_trip:
  assumes "well_formed_host (host a)"
    and "1 \<le> unat (ntohs (port a))" and "unat (ntohs (port a)) \<le> 65535"
  shows "\<exists>text. socket_address_to_str a = Some text \<and>
           socket_address_from_str text addr_out = (STATUS_SUCCESS, a)"
proof -
  let ?p = "print_u (unat (ntohs (port a)))"
  obtain ht where 1: "host_address_to_str (host a) = Some ht"
    and 2: "host_address_from_str ht zeroed_host = (STATUS_SUCCESS, host a)"
    and 3: "\<not> in_brackets ht"
    using host_address_read [OF assms(1)] by blast
  have s: "socket_address_to_str a = Some (ht @ CHR '':'' # ?p)"
    by (simp add: socket_address_to_str_def 1 port_text(1) [OF assms(2)])
  have nc: "CHR '':'' \<notin> set ?p"
    by (rule print_u_plain)
  have sp: "split_string (ht @ CHR '':'' # ?p) CHR '':'' = Some (ht, ?p)"
    using 3 nc by (rule split_string_last)
  have ne: "?p \<noteq> []" using print_u_first [of "unat (ntohs (port a))"] by auto
  have a: "\<lparr>host = host a, port = port a\<rparr> = a" by simp
  have "socket_address_from_str (ht @ CHR '':'' # ?p) addr_out = (STATUS_SUCCESS, a)"
    using ne by (simp add: socket_address_from_str_def sp port_text(2) [OF assms(2)]
        htons_ntohs 2 a)
  with s show ?thesis by blast
qed

theorem socket_address_round_trip_witness:
  "well_formed_host (host example_socket) \<and>
   1 \<le> unat (ntohs (port example_socket)) \<and> unat (ntohs (port example_socket)) \<le> 65535 \<and>
   socket_address_to_str example_socket = Some ''127.0.0.1:1080'' \<and>
   socket_address_from_str ''127.0.0.1:1080'' \<lparr>host = zeroed_host, port = 0\<rparr> =
     (STATUS_SUCCESS, example_socket) \<and>
   well_formed_host (host example_socket6) \<and>
   1 \<le> unat (ntohs (port example_socket6)) \<and> unat (ntohs (port example_socket6)) \<le> 65535 \<and>
   socket_address_to_str example_socket6 = Some ''[2001:db8::a:0:1]:443'' \<and>
   socket_address_from_str ''[2001:db8::a:0:1]:443'' \<lparr>host = zeroed_host, port = 0\<rparr> =
     (STATUS_SUCCESS, example_socket6)"
proof -
  let ?out = "\<lparr>host = zeroed_host, port = 0\<rparr>"
  have n4: "ntohs (port example_socket) = 1080"
    using htons_ntohs [of 1080] by (simp add: example_socket_def htons_def ntohs_def)
  have n6: "ntohs (port example_socket6) = 443"
    using htons_ntohs [of 443] by (simp add: example_socket6_def htons_def ntohs_def)
  have w4: "well_formed_host (host example_socket)"
    by (simp add: well_formed_host_def example_socket_def example_host_def zeroed_ip_def)
  have w6: "well_formed_host (host example_socket6)"
    by (simp add: well_formed_host_def example_socket6_def example_host6_def)
  have p4: "1 \<le> unat (ntohs (port example_socket))" "unat (ntohs (port example_socket)) \<le> 65535"
    unfolding n4 by simp_all
  have p6: "1 \<le> unat (ntohs (port example_socket6))" "unat (ntohs (port example_socket6)) \<le> 65535"
    unfolding n6 by simp_all
  have d: "print_u 127 = ''127''" "print_u 0 = ''0''" "print_u 1 = ''1''"
    "print_u (Suc 0) = ''1''" "print_u 1080 = ''1080''" "print_u 443 = ''443''"
    by (simp_all add: print_u.simps [of 127] print_u.simps [of 12] print_u.simps [of 1]
        print_u.simps [of "Suc 0"] print_u.simps [of 0] print_u.simps [of 1080]
        print_u.simps [of 108] print_u.simps [of 10] print_u.simps [of 443]
        print_u.simps [of 44] print_u.simps [of 4] digit_char_def)
  have h4: "host_address_to_str (host example_socket) = Some ''127.0.0.1''"
    by (simp add: host_address_to_str_def example_socket_def example_host_def d snprintf_def
        ADDRESS_MAX_LEN_def)
  have t4: "socket_address_to_str example_socket = Some ''127.0.0.1:1080''"
    unfolding socket_address_to_str_def n4 h4 by (simp add: d snprintf_def)
  have g: "groups16 (ip example_host6) = [0x2001, 0xdb8, 0, 0, 0, 0xa, 0, 1]"
    by (simp add: groups16_def example_host6_def upt_rec)
  have z: "longest_zero_run [0x2001, 0xdb8, 0, 0, 0, 0xa, 0, 1] = Some (2, 3)"
    by (simp add: longest_zero_run_def zero_run_def upt_rec Let_def)
  have x: "hex_text 0x2001 = ''2001''" "hex_text 0xdb8 = ''db8''" "hex_text 0xa = ''a''"
    "hex_text 0 = ''0''" "hex_text 1 = ''1''" "hex_text (Suc 0) = ''1''"
    by (simp_all add: hex_text.simps)
  have ty: "type example_host6 \<noteq> NETWORK_INET" by (simp add: example_host6_def)
  have "host_address_to_str example_host6 = Some (ipv6_text (groups16 (ip example_host6)))"
    using ty by (rule host_address_to_str_inet6)
  also have "\<dots> = Some ''[2001:db8::a:0:1]''"
    unfolding g ipv6_text_def z by (simp add: x)
  finally have h6: "host_address_to_str (host example_socket6) = Some ''[2001:db8::a:0:1]''"
    by (simp add: example_socket6_def)
  have t6: "socket_address_to_str example_socket6 = Some ''[2001:db8::a:0:1]:443''"
    unfolding socket_address_to_str_def n6 h6 by (simp add: d snprintf_def)
  have r4: "socket_address_from_str ''127.0.0.1:1080'' ?out = (STATUS_SUCCESS, example_socket)"
    using socket_address_round_trip [OF w4 p4, of ?out] unfolding t4 by simp
  have r6: "socket_address_from_str ''[2001:db8::a:0:1]:443'' ?out =
      (STATUS_SUCCESS, example_socket6)"
    using socket_address_round_trip [OF w6 p6, of ?out] unfolding t6 by simp
  show ?thesis using w4 p4 t4 r4 w6 p6 t6 r6 by (simp only: simp_thms)
qed

section \<open>Properties of the main program\<close>

lemma read_arguments_no_help:
  assumes "\<forall>a\<in>set args. \<not> is_help a" and "\<And>c. c \<noteq> Event_base_loop \<Longrightarrow> returns c"
  shows "read_arguments returns args st =
     Inr \<lparr>bound = (if \<exists>a\<in>set args. is_bind a then 1 else bound st),
          iface_count = iface_count st + of_nat (length (filter (\<lambda>a. \<not> is_bind a) args)),
          calls = calls st @ map arg_call args\<rparr>"
  using assms(1)
proof (induction args arbitrary: st)
  case Nil
  then show ?case by simp
next
  case (Cons arg args)
  then have nh: "arg \<noteq> ''-h''" "arg \<noteq> ''--help''" and rest: "\<forall>a\<in>set args. \<not> is_help a"
    by (auto simp: is_help_def)
  show ?case
  proof (cases "is_bind arg")
    case True
    then show ?thesis
      using nh Cons.IH [OF rest] assms(2)
      by (simp add: do_call_def arg_call_def is_bind_def)
  next
    case False
    then show ?thesis
      using nh Cons.IH [OF rest] assms(2)
      by (simp add: do_call_def arg_call_def is_bind_def)
  qed
qed

lemma positional_no_help:
  "\<forall>a\<in>set (tl argv). \<not> is_help a \<Longrightarrow>
     positional argv = filter (\<lambda>a. \<not> is_bind a) (tl argv)"
  by (auto simp: positional_def intro: filter_cong)

lemma unat_count:
  assumes "n < 2 ^ 31"
  shows "unat (of_nat n :: 32 word) = n"
proof -
  have "n < 2 ^ 32" using assms by simp
  then show ?thesis by (simp add: unat_of_nat)
qed

lemma count_word_zero:
  assumes "n < 2 ^ 31"
  shows "((of_nat n :: 32 word) = 0) = (n = 0)"
proof
  assume "(of_nat n :: 32 word) = 0"
  then have "unat (of_nat n :: 32 word) = 0" by simp
  then show "n = 0" using unat_count [OF assms] by simp
next
  assume "n = 0"
  then show "(of_nat n :: 32 word) = 0" by simp
qed

text \<open>
  Claim C8, as stated: every command line without positional arguments ends in the fatal
  error \<open>No addresses to dispatch.\<close>, and every command line with a positional argument
  and no \<open>--bind\<close> gets both default listeners. The help flags are not positional
  arguments, and \<open>main\<close> leaves through \<open>exit(1)\<close> as soon as it meets one: with \<open>-h\<close>
  alone there is no fatal error, and with \<open>--help\<close> after an interface no listener is
  created. Nor is one created when a call made before does not come back.
\<close>

theorem main_startup_counterexample:
  "positional [''dispatch_ng'', ''-h''] = [] \<and>
   main (\<lambda>c. True) [''dispatch_ng'', ''-h''] =
     ([Utils_init, Connector_init, Printf usage], Exit 1) \<and>
   positional [''dispatch_ng'', ''10.0.0.1'', ''--help''] = [''10.0.0.1''] \<and>
   main (\<lambda>c. True) [''dispatch_ng'', ''10.0.0.1'', ''--help''] =
     ([Utils_init, Connector_init, Balancer_add_from_string ''10.0.0.1'', Printf usage], Exit 1) \<and>
   positional [''dispatch_ng'', ''nonsense''] = [''nonsense''] \<and>
   main (\<lambda>c. c \<noteq> Balancer_add_from_string ''nonsense'') [''dispatch_ng'', ''nonsense''] =
     ([Utils_init, Connector_init, Balancer_add_from_string ''nonsense''],
      Stopped_in (Balancer_add_from_string ''nonsense''))"
  by (simp add: positional_def is_help_def is_bind_def main_def do_call_def)

text \<open>
  Claim C8, amended. Take a command line without \<open>-h\<close> and \<open>--help\<close> (of fewer than
  \<open>2^31\<close> arguments, \<open>argc\<close> being an \<open>int\<close>), and let every call that \<open>main\<close> makes before
  the event loop come back. If there is no positional argument, \<open>main\<close> ends in the fatal
  error \<open>No addresses to dispatch.\<close>, a status that is not zero. If there is a positional
  argument and no \<open>--bind\<close> argument, \<open>main\<close> hands the positional arguments to the
  balancer, then creates the listener on \<open>127.0.0.1:1080\<close>, then the one on
  \<open>[::1]:1080\<close>, and then enters the event loop.
\<close>

theorem main_startup:
  assumes "\<forall>a\<in>set (tl argv). \<not> is_help a"
    and "\<And>c. c \<noteq> Event_base_loop \<Longrightarrow> returns c"
    and "length argv < 2 ^ 31"
  shows "(positional argv = [] \<longrightarrow>
            snd (main returns argv) = Fatal_error ''No addresses to dispatch.'' \<and>
            nonzero_exit (snd (main returns argv))) \<and>
         (positional argv \<noteq> [] \<and> (\<forall>a\<in>set (tl argv). \<not> is_bind a) \<longrightarrow>
            fst (main returns argv) =
              [Utils_init, Connector_init] @
              map Balancer_add_from_string (positional argv) @
              [Server_create ''127.0.0.1:1080'', Server_create ''[::1]:1080'', Event_base_loop])"
proof -
  let ?st = "\<lparr>bound = 0, iface_count = 0, calls = [Utils_init, Connector_init]\<rparr>"
  let ?n = "length (filter (\<lambda>a. \<not> is_bind a) (tl argv))"
  have pos: "positional argv = filter (\<lambda>a. \<not> is_bind a) (tl argv)"
    using assms(1) by (rule positional_no_help)
  have "?n \<le> length (tl argv)" by (rule length_filter_le)
  also have "\<dots> \<le> length argv" by simp
  finally have n: "?n < 2 ^ 31" using assms(3) by simp
  have ra: "read_arguments returns (tl argv) ?st =
     Inr \<lparr>bound = (if \<exists>a\<in>set (tl argv). is_bind a then 1 else 0),
          iface_count = of_nat ?n,
          calls = [Utils_init, Connector_init] @ map arg_call (tl argv)\<rparr>"
    using read_arguments_no_help [OF assms(1) assms(2), where st = ?st] by simp
  have m: "main returns argv =
     (case read_arguments returns (tl argv) ?st of
        Inl stop \<Rightarrow> stop
      | Inr st \<Rightarrow>
          if iface_count st = 0 then (calls st, Fatal_error ''No addresses to dispatch.'')
          else
            (case default_listeners returns st of
               Inl stop \<Rightarrow> stop
             | Inr st \<Rightarrow>
                 (case do_call returns Event_base_loop st of
                    Inl stop \<Rightarrow> stop
                  | Inr st \<Rightarrow> (calls st, Return 0))))"
    using assms(2) by (simp add: main_def do_call_def)
  show ?thesis
  proof (intro conjI impI)
    assume e: "positional argv = []"
    then have "?n = 0" using pos by simp
    then show "snd (main returns argv) = Fatal_error ''No addresses to dispatch.''"
      by (simp add: m ra)
    then show "nonzero_exit (snd (main returns argv))"
      by (simp add: nonzero_exit_def)
  next
    assume a: "positional argv \<noteq> [] \<and> (\<forall>a\<in>set (tl argv). \<not> is_bind a)"
    then have "filter (\<lambda>a. \<not> is_bind a) (tl argv) \<noteq> []"
      using pos by metis
    then have "?n \<noteq> 0" by (simp only: length_0_conv not_False_eq_True)
    then have nz: "(of_nat ?n :: 32 word) \<noteq> 0"
      using count_word_zero [OF n] by blast
    from a have nb: "\<not> (\<exists>a\<in>set (tl argv). is_bind a)" by simp
    from a have all: "filter (\<lambda>a. \<not> is_bind a) (tl argv) = tl argv" by simp
    have calls: "map arg_call (tl argv) = map Balancer_add_from_string (positional argv)"
      using a by (simp add: pos all arg_call_def)
    show "fst (main returns argv) =
              [Utils_init, Connector_init] @
              map Balancer_add_from_string (positional argv) @
              [Server_create ''127.0.0.1:1080'', Server_create ''[::1]:1080'', Event_base_loop]"
      using nz nb assms(2) calls
      by (simp add: m ra default_listeners_def do_call_def)
  qed
qed

theorem main_startup_witness:
  "main (\<lambda>c. c \<noteq> Event_base_loop) [''dispatch_ng'', ''--bind=127.0.0.1:11080''] =
     ([Utils_init, Connector_init, Server_create ''127.0.0.1:11080''],
      Fatal_error ''No addresses to dispatch.'') \<and>
   fst (main (\<lambda>c. c \<noteq> Event_base_loop) [''dispatch_ng'', ''10.0.0.1'', ''[fe80::1]'']) =
     [Utils_init, Connector_init, Balancer_add_from_string ''10.0.0.1'',
      Balancer_add_from_string ''[fe80::1]'', Server_create ''127.0.0.1:1080'',
      Server_create ''[::1]:1080'', Event_base_loop]"
proof -
  have r: "\<And>c. c \<noteq> Event_base_loop \<Longrightarrow> (\<lambda>c. c \<noteq> Event_base_loop) c" by simp
  have h1: "\<forall>a\<in>set (tl [''dispatch_ng'', ''--bind=127.0.0.1:11080'']). \<not> is_help a"
    by (simp add: is_help_def)
  have l1: "length [''dispatch_ng'', ''--bind=127.0.0.1:11080''] < 2 ^ 31" by simp
  have h2: "\<forall>a\<in>set (tl [''dispatch_ng'', ''10.0.0.1'', ''[fe80::1]'']). \<not> is_help a"
    by (simp add: is_help_def)
  have l2: "length [''dispatch_ng'', ''10.0.0.1'', ''[fe80::1]''] < 2 ^ 31" by simp
  show ?thesis
    using main_startup [OF h1 r l1] main_startup [OF h2 r l2]
    by (simp add: positional_def is_help_def is_bind_def main_def do_call_def
        default_listeners_def)
qed

end
